theory Spec2Isabelle
  imports Main "HOL-Library.Tree" "HOL-Library.Multiset" "HOL-Library.Monad_Syntax"
begin

section \<open>Data model\<close>

text \<open>
  The container is a pointer structure: nodes live on the free store and refer to their
  children by address. The model keeps an explicit store, a partial map from addresses to
  node contents. A pointer is an \<open>addr option\<close>, with \<open>None\<close> for \<open>nullptr\<close>.

  The private members of the C++ classes end in an underscore (\<open>key_\<close>, \<open>root_\<close>), which
  is not a legal name here; they carry a prefix for their class instead:
  \<open>n_\<close> for \<open>AVLTreeNode\<close>, \<open>t_\<close> for \<open>AVLTree\<close>, \<open>i_\<close> for \<open>AVLTree::Iterator\<close> and
  \<open>e_\<close> for \<open>MapEntry\<close>.

  Every operation that reads the store returns an \<open>option\<close>: \<open>None\<close> stands for an
  execution that has no defined result, because it dereferences a null or freed pointer,
  reads the top of an empty stack, or never leaves a loop. A thrown \<open>std::range_error\<close> is a value of type
  \<open>error\<close>; the two throw sites are told apart by their message.

  The type \<open>int\<close> of \<open>count_\<close> and \<open>height_\<close> is modelled by the unbounded integers: a
  height is logarithmic in the number of nodes, and the count is bounded by the number of
  nodes that fit on the free store.
\<close>

type_synonym addr = nat

datatype AVLTreeTraversalMethod = InOrder | ReverseOrder | TopDown

datatype error =
    KeyNotFound    \<comment> \<open>\<open>range_error("! Key {} not present in Tree !")\<close>\<close>
  | DuplicateKey   \<comment> \<open>\<open>range_error("! Key already exists in Tree !")\<close>\<close>

record ('k, 'v) MapEntry =
  e_key :: 'k
  e_value :: 'v

record ('k, 'v) AVLTreeNode =
  n_key :: 'k
  n_value :: 'v
  n_left :: "addr option"
  n_right :: "addr option"
  n_height :: int

type_synonym ('k, 'v) heap = "addr \<Rightarrow> ('k, 'v) AVLTreeNode option"

text \<open>The tree object, together with the free store it points into.\<close>

record ('k, 'v) AVLTree =
  t_heap :: "('k, 'v) heap"
  t_root :: "addr option"
  t_count :: int
  t_traversal_method :: AVLTreeTraversalMethod

record Iterator =
  i_current :: "addr option"
  i_stack :: "addr option list"
  i_queue :: "addr option list"
  i_traversal_method :: AVLTreeTraversalMethod

text \<open>
  A \<open>std::stack\<close> is a list whose head is the top; a \<open>std::queue\<close> is a list whose head
  is the front. \<open>top()\<close> on an empty stack is undefined.
\<close>

type_synonym pstack = "addr option list"


section \<open>AVLTreeNode\<close>

text \<open>The height of a child pointer as \<open>GetBalanceFactor\<close> and \<open>CalculateHeight\<close> read it:
  \<open>(p == nullptr) ? -1 : p->GetHeight()\<close>.\<close>

definition child_height :: "('k, 'v) heap \<Rightarrow> addr option \<Rightarrow> int option" where
  "child_height h c = (case c of None \<Rightarrow> Some (- 1) | Some a \<Rightarrow> map_option n_height (h a))"

text \<open>The constructor: both children null, then \<open>CalculateHeight()\<close>.\<close>

definition AVLTreeNode_new :: "'k \<Rightarrow> 'v \<Rightarrow> ('k, 'v) AVLTreeNode" where
  "AVLTreeNode_new k v =
     (let r = (- 1 :: int); l = (- 1 :: int)
      in \<lparr>n_key = k, n_value = v, n_left = None, n_right = None,
          n_height = (if r > l then r + 1 else l + 1)\<rparr>)"

definition GetMapEntry :: "('k, 'v) AVLTreeNode \<Rightarrow> ('k, 'v) MapEntry" where
  "GetMapEntry n = \<lparr>e_key = n_key n, e_value = n_value n\<rparr>"

definition GetBalanceFactor :: "('k, 'v) heap \<Rightarrow> addr \<Rightarrow> int option" where
  "GetBalanceFactor h p =
     do { n \<leftarrow> h p;
          r \<leftarrow> child_height h (n_right n);
          l \<leftarrow> child_height h (n_left n);
          Some (l - r) }"

definition CalculateHeight :: "('k, 'v) heap \<Rightarrow> addr \<Rightarrow> ('k, 'v) heap option" where
  "CalculateHeight h p =
     do { n \<leftarrow> h p;
          r \<leftarrow> child_height h (n_right n);
          l \<leftarrow> child_height h (n_left n);
          Some (h(p \<mapsto> n\<lparr>n_height := (if r > l then r + 1 else l + 1)\<rparr>)) }"

definition SetLeft :: "('k, 'v) heap \<Rightarrow> addr \<Rightarrow> addr option \<Rightarrow> ('k, 'v) heap option" where
  "SetLeft h p q = do { n \<leftarrow> h p; Some (h(p \<mapsto> n\<lparr>n_left := q\<rparr>)) }"

definition SetRight :: "('k, 'v) heap \<Rightarrow> addr \<Rightarrow> addr option \<Rightarrow> ('k, 'v) heap option" where
  "SetRight h p q = do { n \<leftarrow> h p; Some (h(p \<mapsto> n\<lparr>n_right := q\<rparr>)) }"


section \<open>AVLTree: construction and lookup\<close>

text \<open>A tree constructed in the store \<open>h\<close>.\<close>

definition AVLTree_new :: "('k, 'v) heap \<Rightarrow> AVLTreeTraversalMethod \<Rightarrow> ('k, 'v) AVLTree" where
  "AVLTree_new h m = \<lparr>t_heap = h, t_root = None, t_count = 0, t_traversal_method = m\<rparr>"

definition GetCount :: "('k, 'v) AVLTree \<Rightarrow> int" where
  "GetCount t = t_count t"

definition SetTraversalMethod ::
  "AVLTreeTraversalMethod \<Rightarrow> ('k, 'v) AVLTree \<Rightarrow> ('k, 'v) AVLTree" where
  "SetTraversalMethod m t = t\<lparr>t_traversal_method := m\<rparr>"

definition GetTreeHieight :: "('k, 'v) AVLTree \<Rightarrow> int option" where
  "GetTreeHieight t =
     (case t_root t of Some r \<Rightarrow> map_option n_height (t_heap t r) | None \<Rightarrow> Some 0)"

definition GetTreeBalanceFactor :: "('k, 'v) AVLTree \<Rightarrow> int option" where
  "GetTreeBalanceFactor t =
     (case t_root t of Some r \<Rightarrow> GetBalanceFactor (t_heap t) r | None \<Rightarrow> Some 0)"

text \<open>The loop of \<open>GetNode\<close>; leaving it by the end of the chain throws.\<close>

partial_function (option) GetNode_loop ::
  "('k::linorder, 'v) heap \<Rightarrow> 'k \<Rightarrow> addr option \<Rightarrow> (error + ('k, 'v) AVLTreeNode) option" where
  "GetNode_loop h k current =
     (case current of
        None \<Rightarrow> Some (Inl KeyNotFound)
      | Some c \<Rightarrow>
          do { n \<leftarrow> h c;
               if n_key n = k then Some (Inr n)
               else if n_key n < k then GetNode_loop h k (n_right n)
               else GetNode_loop h k (n_left n) })"

declare GetNode_loop.simps [code]

definition GetNode ::
  "'k::linorder \<Rightarrow> ('k, 'v) AVLTree \<Rightarrow> (error + ('k, 'v) AVLTreeNode) option" where
  "GetNode k t = GetNode_loop (t_heap t) k (t_root t)"

definition Get ::
  "'k::linorder \<Rightarrow> ('k, 'v) AVLTree \<Rightarrow> (error + ('k, 'v) MapEntry) option" where
  "Get k t =
     do { r \<leftarrow> GetNode k t;
          Some (case r of Inl e \<Rightarrow> Inl e | Inr n \<Rightarrow> Inr (GetMapEntry n)) }"









section \<open>Rotations\<close>

definition RotateRight ::
  "addr \<Rightarrow> addr option \<Rightarrow> ('k::linorder, 'v) AVLTree \<Rightarrow> ('k, 'v) AVLTree option" where
  "RotateRight node parent t =
     do { n \<leftarrow> t_heap t node;
          left_node \<leftarrow> n_left n;
          ln \<leftarrow> t_heap t left_node;
          h1 \<leftarrow> SetLeft (t_heap t) node (n_right ln);
          h2 \<leftarrow> SetRight h1 left_node (Some node);
          h3 \<leftarrow> CalculateHeight h2 node;
          h4 \<leftarrow> CalculateHeight h3 left_node;
          case parent of
            None \<Rightarrow> Some (t\<lparr>t_heap := h4, t_root := Some left_node\<rparr>)
          | Some p \<Rightarrow>
              do { ln' \<leftarrow> h4 left_node;
                   pn \<leftarrow> h4 p;
                   h5 \<leftarrow> (if n_key ln' < n_key pn then SetLeft h4 p (Some left_node)
                          else SetRight h4 p (Some left_node));
                   Some (t\<lparr>t_heap := h5\<rparr>) } }"

definition RotateLeft ::
  "addr \<Rightarrow> addr option \<Rightarrow> ('k::linorder, 'v) AVLTree \<Rightarrow> ('k, 'v) AVLTree option" where
  "RotateLeft node parent t =
     do { n \<leftarrow> t_heap t node;
          right_node \<leftarrow> n_right n;
          rn \<leftarrow> t_heap t right_node;
          h1 \<leftarrow> SetRight (t_heap t) node (n_left rn);
          h2 \<leftarrow> SetLeft h1 right_node (Some node);
          h3 \<leftarrow> CalculateHeight h2 node;
          h4 \<leftarrow> CalculateHeight h3 right_node;
          case parent of
            None \<Rightarrow> Some (t\<lparr>t_heap := h4, t_root := Some right_node\<rparr>)
          | Some p \<Rightarrow>
              do { rn' \<leftarrow> h4 right_node;
                   pn \<leftarrow> h4 p;
                   h5 \<leftarrow> (if n_key rn' < n_key pn then SetLeft h4 p (Some right_node)
                          else SetRight h4 p (Some right_node));
                   Some (t\<lparr>t_heap := h5\<rparr>) } }"


section \<open>Rebalancing on the way back up\<close>

definition stack_top :: "'a list \<Rightarrow> 'a option" where
  "stack_top st = (case st of [] \<Rightarrow> None | x # _ \<Rightarrow> Some x)"

text \<open>
  The body of the loop that ends both \<open>Add\<close> and \<open>Remove\<close> (the two loops are the same
  text): recompute the height of \<open>current\<close> and rotate when its balance factor leaves
  \<open>[-1, 1]\<close>. The parent handed to the outer rotation is the top of the stack.
\<close>

definition rebalance_node ::
  "addr \<Rightarrow> pstack \<Rightarrow> ('k::linorder, 'v) AVLTree \<Rightarrow> ('k, 'v) AVLTree option" where
  "rebalance_node current my_stack t =
     do { h1 \<leftarrow> CalculateHeight (t_heap t) current;
          bf \<leftarrow> GetBalanceFactor h1 current;
          if bf > 1 then
            do { n \<leftarrow> h1 current;
                 l \<leftarrow> n_left n;
                 lbf \<leftarrow> GetBalanceFactor h1 l;
                 t2 \<leftarrow> (if lbf < 0 then RotateLeft l (Some current) (t\<lparr>t_heap := h1\<rparr>)
                        else Some (t\<lparr>t_heap := h1\<rparr>));
                 up \<leftarrow> stack_top my_stack;
                 RotateRight current up t2 }
          else if bf < - 1 then
            do { n \<leftarrow> h1 current;
                 r \<leftarrow> n_right n;
                 rbf \<leftarrow> GetBalanceFactor h1 r;
                 t2 \<leftarrow> (if rbf > 0 then RotateRight r (Some current) (t\<lparr>t_heap := h1\<rparr>)
                        else Some (t\<lparr>t_heap := h1\<rparr>));
                 up \<leftarrow> stack_top my_stack;
                 RotateLeft current up t2 }
          else Some (t\<lparr>t_heap := h1\<rparr>) }"

text \<open>The loop \<open>while (current != nullptr) { ...; current = my_stack.top(); my_stack.pop(); }\<close>.\<close>

fun rebalance ::
  "addr option \<Rightarrow> pstack \<Rightarrow> ('k::linorder, 'v) AVLTree \<Rightarrow> ('k, 'v) AVLTree option" where
  "rebalance None my_stack t = Some t"
| "rebalance (Some c) [] t = do { t' \<leftarrow> rebalance_node c [] t; None }"
| "rebalance (Some c) (up # rest) t =
     do { t' \<leftarrow> rebalance_node c (up # rest) t; rebalance up rest t' }"

text \<open>\<open>current = my_stack.top(); my_stack.pop();\<close> followed by the loop.\<close>

definition unwind :: "pstack \<Rightarrow> ('k::linorder, 'v) AVLTree \<Rightarrow> ('k, 'v) AVLTree option" where
  "unwind my_stack t = (case my_stack of [] \<Rightarrow> None | up # rest \<Rightarrow> rebalance up rest t)"


section \<open>Add\<close>

text \<open>
  The descent of \<open>Add\<close>. \<open>node->GetKey()\<close> is the key the node was constructed with. The
  result is the pair of \<open>parent\<close> and \<open>my_stack\<close> when the loop ends, or the exception.
\<close>

partial_function (option) Add_descend ::
  "('k::linorder, 'v) heap \<Rightarrow> 'k \<Rightarrow> addr option \<Rightarrow> addr option \<Rightarrow> pstack
     \<Rightarrow> (error + addr option \<times> pstack) option" where
  "Add_descend h k current parent my_stack =
     (case current of
        None \<Rightarrow> Some (Inr (parent, my_stack))
      | Some c \<Rightarrow>
          do { n \<leftarrow> h c;
               if k = n_key n then Some (Inl DuplicateKey)
               else if k > n_key n
               then Add_descend h k (n_right n) (Some c) (Some c # my_stack)
               else Add_descend h k (n_left n) (Some c) (Some c # my_stack) })"

declare Add_descend.simps [code]

text \<open>
  \<open>Add\<close>; \<open>node\<close> is the address that \<open>new\<close> returns. The exception leaves the function
  after the allocation and before anything else is written: the tree object is as it was,
  the new node stays on the store.
\<close>

definition Add ::
  "addr \<Rightarrow> 'k::linorder \<Rightarrow> 'v \<Rightarrow> ('k, 'v) AVLTree \<Rightarrow> ((error + unit) \<times> ('k, 'v) AVLTree) option" where
  "Add node Key Value t =
     (let t0 = t\<lparr>t_heap := (t_heap t)(node \<mapsto> AVLTreeNode_new Key Value)\<rparr> in
      do { d \<leftarrow> Add_descend (t_heap t0) Key (t_root t0) None [None];
           case d of
             Inl e \<Rightarrow> Some (Inl e, t0)
           | Inr (parent, my_stack) \<Rightarrow>
               do { let t1 = t0\<lparr>t_count := t_count t0 + 1\<rparr>;
                    t2 \<leftarrow> (case parent of
                             None \<Rightarrow> Some (t1\<lparr>t_root := Some node\<rparr>)
                           | Some p \<Rightarrow>
                               do { pn \<leftarrow> t_heap t1 p;
                                    h' \<leftarrow> (if Key > n_key pn
                                           then SetRight (t_heap t1) p (Some node)
                                           else SetLeft (t_heap t1) p (Some node));
                                    Some (t1\<lparr>t_heap := h'\<rparr>) });
                    t3 \<leftarrow> unwind my_stack t2;
                    Some (Inr (), t3) } })"


section \<open>Remove\<close>










section \<open>Iteration\<close>

text \<open>The loop of \<open>StackLeftToNull\<close>, and the function itself.\<close>

partial_function (option) push_left_chain ::
  "('k, 'v) heap \<Rightarrow> addr option \<Rightarrow> pstack \<Rightarrow> pstack option" where
  "push_left_chain h current st =
     (case current of
        None \<Rightarrow> Some st
      | Some c \<Rightarrow> do { n \<leftarrow> h c; push_left_chain h (n_left n) (Some c # st) })"

declare push_left_chain.simps [code]

definition StackLeftToNull :: "('k, 'v) heap \<Rightarrow> pstack \<Rightarrow> pstack option" where
  "StackLeftToNull h st =
     (case st of
        [] \<Rightarrow> None
      | None # _ \<Rightarrow> Some st
      | Some c # _ \<Rightarrow> do { n \<leftarrow> h c; push_left_chain h (n_left n) st })"

partial_function (option) push_right_chain ::
  "('k, 'v) heap \<Rightarrow> addr option \<Rightarrow> pstack \<Rightarrow> pstack option" where
  "push_right_chain h current st =
     (case current of
        None \<Rightarrow> Some st
      | Some c \<Rightarrow> do { n \<leftarrow> h c; push_right_chain h (n_right n) (Some c # st) })"

declare push_right_chain.simps [code]

definition StackRightToNull :: "('k, 'v) heap \<Rightarrow> pstack \<Rightarrow> pstack option" where
  "StackRightToNull h st =
     (case st of
        [] \<Rightarrow> None
      | None # _ \<Rightarrow> Some st
      | Some c # _ \<Rightarrow> do { n \<leftarrow> h c; push_right_chain h (n_right n) st })"

text \<open>\<open>current_ = stack_.top(); stack_.pop();\<close>\<close>

definition pop_to_current :: "pstack \<Rightarrow> Iterator \<Rightarrow> Iterator option" where
  "pop_to_current st it =
     (case st of [] \<Rightarrow> None | x # rest \<Rightarrow> Some (it\<lparr>i_current := x, i_stack := rest\<rparr>))"

text \<open>The children of a node that \<open>TopDown\<close> appends to the queue, left before right.\<close>

definition enqueue_children :: "('k, 'v) AVLTreeNode \<Rightarrow> addr option list \<Rightarrow> addr option list" where
  "enqueue_children n q =
     (let q1 = (if n_left n \<noteq> None then q @ [n_left n] else q)
      in if n_right n \<noteq> None then q1 @ [n_right n] else q1)"

definition SetInitalLocation :: "('k, 'v) heap \<Rightarrow> addr option \<Rightarrow> Iterator \<Rightarrow> Iterator option" where
  "SetInitalLocation h start it =
     (case i_traversal_method it of
        InOrder \<Rightarrow> do { st \<leftarrow> StackLeftToNull h [start, None]; pop_to_current st it }
      | ReverseOrder \<Rightarrow> do { st \<leftarrow> StackRightToNull h [start, None]; pop_to_current st it }
      | TopDown \<Rightarrow>
          (case start of
             None \<Rightarrow> Some (it\<lparr>i_current := None, i_queue := []\<rparr>)
           | Some c \<Rightarrow>
               do { n \<leftarrow> h c;
                    Some (it\<lparr>i_current := start, i_queue := enqueue_children n []\<rparr>) }))"

text \<open>The constructor of the iterator; \<open>current_\<close> is set by \<open>SetInitalLocation\<close> in
  every mode.\<close>

definition Iterator_new ::
  "('k, 'v) heap \<Rightarrow> addr option \<Rightarrow> AVLTreeTraversalMethod \<Rightarrow> Iterator option" where
  "Iterator_new h start m =
     SetInitalLocation h start
       \<lparr>i_current = None, i_stack = [], i_queue = [], i_traversal_method = m\<rparr>"

definition MoveNext :: "('k, 'v) heap \<Rightarrow> Iterator \<Rightarrow> Iterator option" where
  "MoveNext h it =
     (case i_traversal_method it of
        InOrder \<Rightarrow>
          do { c \<leftarrow> i_current it;
               n \<leftarrow> h c;
               st \<leftarrow> (if n_right n \<noteq> None then StackLeftToNull h (n_right n # i_stack it)
                      else Some (i_stack it));
               pop_to_current st it }
      | ReverseOrder \<Rightarrow>
          do { c \<leftarrow> i_current it;
               n \<leftarrow> h c;
               st \<leftarrow> (if n_left n \<noteq> None then StackRightToNull h (n_left n # i_stack it)
                      else Some (i_stack it));
               pop_to_current st it }
      | TopDown \<Rightarrow>
          (case i_queue it of
             [] \<Rightarrow> Some (it\<lparr>i_current := None\<rparr>)
           | front # q \<Rightarrow>
               do { c \<leftarrow> front;
                    n \<leftarrow> h c;
                    Some (it\<lparr>i_current := front, i_queue := enqueue_children n q\<rparr>) }))"

definition AVLTree_begin :: "('k, 'v) AVLTree \<Rightarrow> Iterator option" where
  "AVLTree_begin t = Iterator_new (t_heap t) (t_root t) (t_traversal_method t)"

definition AVLTree_end :: "('k, 'v) AVLTree \<Rightarrow> Iterator option" where
  "AVLTree_end t = Iterator_new (t_heap t) None (t_traversal_method t)"

text \<open>
  The range-based \<open>for\<close> over a tree: from \<open>begin()\<close>, while the iterator differs from
  \<open>end()\<close> (the operator compares \<open>current_\<close> only), take the node it points to and
  advance. The result is the list of nodes the loop body sees.
\<close>

partial_function (option) for_range ::
  "('k, 'v) heap \<Rightarrow> Iterator \<Rightarrow> Iterator \<Rightarrow> ('k, 'v) AVLTreeNode list option" where
  "for_range h it e =
     (if i_current it = i_current e then Some []
      else do { c \<leftarrow> i_current it;
                n \<leftarrow> h c;
                it' \<leftarrow> MoveNext h it;
                ns \<leftarrow> for_range h it' e;
                Some (n # ns) })"

declare for_range.simps [code]

definition traverse :: "('k, 'v) AVLTree \<Rightarrow> ('k, 'v) AVLTreeNode list option" where
  "traverse t =
     do { b \<leftarrow> AVLTree_begin t;
          e \<leftarrow> AVLTree_end t;
          for_range (t_heap t) b e }"


section \<open>Sequences of operations\<close>










section \<open>The tree a store represents\<close>

text \<open>
  An abstract tree carries, at each node, the address of the node with its key and value.
  \<open>rep h p T\<close> says that the structure reachable from the pointer \<open>p\<close> in the store \<open>h\<close>
  is the tree \<open>T\<close>: every pointer on the way is null or allocated, and the keys and values
  are those of \<open>T\<close>. The cached heights are not part of the abstraction.
\<close>

type_synonym ('k, 'v) shape = "(addr \<times> 'k \<times> 'v) tree"

fun rep :: "('k, 'v) heap \<Rightarrow> addr option \<Rightarrow> ('k, 'v) shape \<Rightarrow> bool" where
  "rep h p Leaf = (p = None)"
| "rep h p (Node l (a, k, v) r) =
     (p = Some a \<and>
      (case h a of
         None \<Rightarrow> False
       | Some n \<Rightarrow> n_key n = k \<and> n_value n = v \<and> rep h (n_left n) l \<and> rep h (n_right n) r))"

definition addrs :: "('k, 'v) shape \<Rightarrow> addr set" where
  "addrs T = fst ` set_tree T"

definition keys :: "('k, 'v) shape \<Rightarrow> 'k list" where
  "keys T = map (\<lambda>(a, k, v). k) (inorder T)"

definition entry_of :: "addr \<times> 'k \<times> 'v \<Rightarrow> ('k, 'v) MapEntry" where
  "entry_of x = \<lparr>e_key = fst (snd x), e_value = snd (snd x)\<rparr>"

definition entries :: "('k, 'v) shape \<Rightarrow> ('k, 'v) MapEntry list" where
  "entries T = map entry_of (inorder T)"

text \<open>The search-tree invariant: the keys in order are strictly increasing.\<close>

definition ordered :: "('k::linorder, 'v) shape \<Rightarrow> bool" where
  "ordered T = sorted_wrt (<) (keys T)"

text \<open>
  The lookup as the specification words it, on the abstract tree: left when the target is
  smaller than the key of the current node, right when it is larger, found when equal,
  \<open>KeyNotFound\<close> when a leaf is exhausted.
\<close>

fun Get_spec :: "('k::linorder, 'v) shape \<Rightarrow> 'k \<Rightarrow> error + ('k, 'v) MapEntry" where
  "Get_spec Leaf k = Inl KeyNotFound"
| "Get_spec (Node l (a, k', v) r) k =
     (if k = k' then Inr \<lparr>e_key = k', e_value = v\<rparr>
      else if k < k' then Get_spec l k
      else Get_spec r k)"


text \<open>
  Level order as the specification words it, breadth-first with the root first: the roots
  of a forest from left to right, then the level order of all their children. A tree of
  height \<open>n\<close> has \<open>n\<close> levels.
\<close>

fun kids :: "'a tree \<Rightarrow> 'a tree list" where
  "kids Leaf = []"
| "kids (Node l x r) = (if l = Leaf then [] else [l]) @ (if r = Leaf then [] else [r])"

fun roots :: "'a tree list \<Rightarrow> 'a list" where
  "roots [] = []"
| "roots (Leaf # ts) = roots ts"
| "roots (Node l x r # ts) = x # roots ts"

definition children :: "'a tree list \<Rightarrow> 'a tree list" where
  "children ts = concat (map kids ts)"

primrec levels :: "nat \<Rightarrow> 'a tree list \<Rightarrow> 'a list" where
  "levels 0 ts = []"
| "levels (Suc n) ts = roots ts @ levels n (children ts)"

definition levelorder :: "'a tree \<Rightarrow> 'a list" where
  "levelorder T = levels (height T) [T]"





section \<open>Rotations on the abstract tree\<close>

text \<open>
  The rotation at the node with address \<open>a\<close>, as the specification words it: the left
  child becomes the root of the subtree, the node takes the right subtree of its old left
  child as its left subtree and becomes the right child; \<open>rotate_left_at\<close> is the mirror
  image. \<open>parent_in None T a\<close> is the pointer to the parent of the node \<open>a\<close> in \<open>T\<close>: null
  for the root, no result when \<open>a\<close> is not in \<open>T\<close>.
\<close>

fun rotate_right_at :: "addr \<Rightarrow> ('k, 'v) shape \<Rightarrow> ('k, 'v) shape" where
  "rotate_right_at a Leaf = Leaf"
| "rotate_right_at a (Node l x r) =
     (if fst x = a
      then (case l of Leaf \<Rightarrow> Node l x r | Node ll y lr \<Rightarrow> Node ll y (Node lr x r))
      else Node (rotate_right_at a l) x (rotate_right_at a r))"

fun rotate_left_at :: "addr \<Rightarrow> ('k, 'v) shape \<Rightarrow> ('k, 'v) shape" where
  "rotate_left_at a Leaf = Leaf"
| "rotate_left_at a (Node l x r) =
     (if fst x = a
      then (case r of Leaf \<Rightarrow> Node l x r | Node rl y rr \<Rightarrow> Node (Node l x rl) y rr)
      else Node (rotate_left_at a l) x (rotate_left_at a r))"

fun parent_in :: "addr option \<Rightarrow> ('k, 'v) shape \<Rightarrow> addr \<Rightarrow> addr option option" where
  "parent_in up Leaf a = None"
| "parent_in up (Node l x r) a =
     (if fst x = a then Some up
      else (case parent_in (Some (fst x)) l a of
              Some q \<Rightarrow> Some q
            | None \<Rightarrow> parent_in (Some (fst x)) r a))"

text \<open>The cached height of the node \<open>p\<close> is the one \<open>CalculateHeight\<close> computes from the
  cached heights of its children.\<close>

definition height_cached :: "('k, 'v) heap \<Rightarrow> addr \<Rightarrow> bool" where
  "height_cached h p =
     (case h p of
        None \<Rightarrow> False
      | Some n \<Rightarrow>
          (case child_height h (n_left n) of
             None \<Rightarrow> False
           | Some l \<Rightarrow>
               (case child_height h (n_right n) of
                  None \<Rightarrow> False
                | Some r \<Rightarrow> n_height n = (if r > l then r + 1 else l + 1))))"

text \<open>
  The store \<open>H\<close> is \<open>h\<close> after the pointer surgery of a right rotation at \<open>node\<close> with left
  child \<open>l\<close>: \<open>node\<close> has the old right subtree of \<open>l\<close> as its left child, \<open>l\<close> has \<open>node\<close>
  as its right child, the parent points to \<open>l\<close> on the side that the comparison of keys
  selects, and nothing else has changed except the two cached heights.
\<close>

definition rewired_right ::
  "('k::linorder, 'v) heap \<Rightarrow> ('k, 'v) heap \<Rightarrow> addr \<Rightarrow> addr \<Rightarrow> addr option \<Rightarrow> bool" where
  "rewired_right h H node l parent =
     (\<exists>n ln. h node = Some n \<and> h l = Some ln \<and> n_left n = Some l \<and>
        (\<exists>hn. H node = Some (n\<lparr>n_left := n_right ln, n_height := hn\<rparr>)) \<and>
        (\<exists>hl. H l = Some (ln\<lparr>n_right := Some node, n_height := hl\<rparr>)) \<and>
        (case parent of
           None \<Rightarrow> True
         | Some p \<Rightarrow>
             (\<exists>pn. h p = Some pn \<and>
                H p = Some (if n_key ln < n_key pn then pn\<lparr>n_left := Some l\<rparr>
                            else pn\<lparr>n_right := Some l\<rparr>))) \<and>
        (\<forall>a. a \<noteq> node \<and> a \<noteq> l \<and> Some a \<noteq> parent \<longrightarrow> H a = h a))"

definition rewired_left ::
  "('k::linorder, 'v) heap \<Rightarrow> ('k, 'v) heap \<Rightarrow> addr \<Rightarrow> addr \<Rightarrow> addr option \<Rightarrow> bool" where
  "rewired_left h H node rc parent =
     (\<exists>n rn. h node = Some n \<and> h rc = Some rn \<and> n_right n = Some rc \<and>
        (\<exists>hn. H node = Some (n\<lparr>n_right := n_left rn, n_height := hn\<rparr>)) \<and>
        (\<exists>hr. H rc = Some (rn\<lparr>n_left := Some node, n_height := hr\<rparr>)) \<and>
        (case parent of
           None \<Rightarrow> True
         | Some p \<Rightarrow>
             (\<exists>pn. h p = Some pn \<and>
                H p = Some (if n_key rn < n_key pn then pn\<lparr>n_left := Some rc\<rparr>
                            else pn\<lparr>n_right := Some rc\<rparr>))) \<and>
        (\<forall>a. a \<noteq> node \<and> a \<noteq> rc \<and> Some a \<noteq> parent \<longrightarrow> H a = h a))"


section \<open>Invariants of the traversal loops\<close>

text \<open>
  What an in-order iterator still has to deliver when its stack holds the roots of the
  trees \<open>Ts\<close> (top first): each root and then its right subtree. \<open>pending_rev\<close> is the
  mirror image for the reverse order.
\<close>

fun pending :: "('k, 'v) shape list \<Rightarrow> (addr \<times> 'k \<times> 'v) list" where
  "pending [] = []"
| "pending (Leaf # Ts) = pending Ts"
| "pending (Node l x r # Ts) = x # inorder r @ pending Ts"

fun pending_rev :: "('k, 'v) shape list \<Rightarrow> (addr \<times> 'k \<times> 'v) list" where
  "pending_rev [] = []"
| "pending_rev (Leaf # Ts) = pending_rev Ts"
| "pending_rev (Node l x r # Ts) = x # rev (inorder l) @ pending_rev Ts"

text \<open>A stack of pointers to the non-empty trees \<open>Ts\<close>, above the null that was pushed first.\<close>

fun stk :: "('k, 'v) heap \<Rightarrow> pstack \<Rightarrow> ('k, 'v) shape list \<Rightarrow> bool" where
  "stk h st [] = (st = [None])"
| "stk h st (T # Ts) =
     (case st of [] \<Rightarrow> False | p # st' \<Rightarrow> T \<noteq> Leaf \<and> rep h p T \<and> stk h st' Ts)"

text \<open>A queue of pointers to the non-empty trees \<open>ts\<close>.\<close>

definition qrep :: "('k, 'v) heap \<Rightarrow> addr option list \<Rightarrow> ('k, 'v) shape list \<Rightarrow> bool" where
  "qrep h q ts = list_all2 (\<lambda>p T. T \<noteq> Leaf \<and> rep h p T) q ts"

text \<open>The level-order traversal with a queue of trees, which the loop of \<open>TopDown\<close> follows.\<close>

function bfs :: "'a tree list \<Rightarrow> 'a list" where
  "bfs [] = []"
| "bfs (T # q) = roots [T] @ bfs (q @ kids T)"
  by pat_completeness auto
termination
proof (relation "measure (\<lambda>q. sum_list (map (\<lambda>T. 2 * size T + 1) q))")
  show "wf (measure (\<lambda>q. sum_list (map (\<lambda>T. 2 * size T + 1) q)))" by simp
next
  fix T :: "'a tree" and q
  show "(q @ kids T, T # q) \<in> measure (\<lambda>q. sum_list (map (\<lambda>T. 2 * size T + 1) q))"
    by (cases T) auto
qed


section \<open>Example trees\<close>

text \<open>
  \<open>tree1\<close> holds the single key 7. In \<open>tree3\<close> and \<open>tree8\<close> the node with key \<open>i\<close> lives at
  address \<open>i\<close>: \<open>tree3\<close> has the shape that \<open>Add\<close> builds from the keys 2, 1, 3, and
  \<open>tree8\<close> the one it builds from 4, 2, 6, 1, 3, 5, 7, 8 (no insertion of these rotates).
\<close>

definition tree1 :: "(int, string) AVLTree" where
  "tree1 =
     \<lparr>t_heap = Map.empty
        (1 \<mapsto> \<lparr>n_key = 7, n_value = ''seven'', n_left = None, n_right = None, n_height = 0\<rparr>),
      t_root = Some 1, t_count = 1, t_traversal_method = InOrder\<rparr>"

definition tree3 :: "(int, string) AVLTree" where
  "tree3 =
     \<lparr>t_heap = Map.empty
        (2 \<mapsto> \<lparr>n_key = 2, n_value = ''two'', n_left = Some 1, n_right = Some 3, n_height = 1\<rparr>,
         1 \<mapsto> \<lparr>n_key = 1, n_value = ''one'', n_left = None, n_right = None, n_height = 0\<rparr>,
         3 \<mapsto> \<lparr>n_key = 3, n_value = ''three'', n_left = None, n_right = None, n_height = 0\<rparr>),
      t_root = Some 2, t_count = 3, t_traversal_method = InOrder\<rparr>"

definition shape3 :: "(int, string) shape" where
  "shape3 = Node (Node Leaf (1, 1, ''one'') Leaf) (2, 2, ''two'') (Node Leaf (3, 3, ''three'') Leaf)"

definition tree8 :: "(int, string) AVLTree" where
  "tree8 =
     \<lparr>t_heap = Map.empty
        (4 \<mapsto> \<lparr>n_key = 4, n_value = ''four'', n_left = Some 2, n_right = Some 6, n_height = 3\<rparr>,
         2 \<mapsto> \<lparr>n_key = 2, n_value = ''two'', n_left = Some 1, n_right = Some 3, n_height = 1\<rparr>,
         6 \<mapsto> \<lparr>n_key = 6, n_value = ''six'', n_left = Some 5, n_right = Some 7, n_height = 2\<rparr>,
         1 \<mapsto> \<lparr>n_key = 1, n_value = ''one'', n_left = None, n_right = None, n_height = 0\<rparr>,
         3 \<mapsto> \<lparr>n_key = 3, n_value = ''three'', n_left = None, n_right = None, n_height = 0\<rparr>,
         5 \<mapsto> \<lparr>n_key = 5, n_value = ''five'', n_left = None, n_right = None, n_height = 0\<rparr>,
         7 \<mapsto> \<lparr>n_key = 7, n_value = ''seven'', n_left = None, n_right = Some 8, n_height = 1\<rparr>,
         8 \<mapsto> \<lparr>n_key = 8, n_value = ''eight'', n_left = None, n_right = None, n_height = 0\<rparr>),
      t_root = Some 4, t_count = 8, t_traversal_method = InOrder\<rparr>"

definition shape8 :: "(int, string) shape" where
  "shape8 =
     Node (Node (Node Leaf (1, 1, ''one'') Leaf) (2, 2, ''two'') (Node Leaf (3, 3, ''three'') Leaf))
          (4, 4, ''four'')
          (Node (Node Leaf (5, 5, ''five'') Leaf) (6, 6, ''six'')
                (Node Leaf (7, 7, ''seven'') (Node Leaf (8, 8, ''eight'') Leaf)))"



section \<open>Basic facts about the abstraction\<close>

lemma keys_simps [simp]:
  "keys Leaf = []"
  "keys (Node l (a, k, v) r) = keys l @ k # keys r"
  by (simp_all add: keys_def)

lemma addrs_simps [simp]:
  "addrs Leaf = {}"
  "addrs (Node l (a, k, v) r) = insert a (addrs l \<union> addrs r)"
  by (auto simp: addrs_def)

lemma ordered_Node:
  "ordered (Node l (a, k, v) r) \<longleftrightarrow>
     ordered l \<and> ordered r \<and> (\<forall>x \<in> set (keys l). x < k) \<and> (\<forall>x \<in> set (keys r). k < x)"
  using less_trans by (fastforce simp: ordered_def sorted_wrt_append)

lemma mem_keys: "(a, k, v) \<in> set_tree T \<Longrightarrow> k \<in> set (keys T)"
  by (force simp: keys_def)

lemma rep_NodeE:
  assumes "rep h p (Node l x r)"
  obtains a k v n where "x = (a, k, v)" "p = Some a" "h a = Some n" "n_key n = k"
    "n_value n = v" "rep h (n_left n) l" "rep h (n_right n) r"
  using assms by (cases x) (auto split: option.splits)

text \<open>A store that agrees with \<open>h\<close> on the nodes of \<open>T\<close> represents \<open>T\<close> as well.\<close>

lemma rep_frame:
  "rep h p T \<Longrightarrow> (\<And>a. a \<in> addrs T \<Longrightarrow> h' a = h a) \<Longrightarrow> rep h' p T"
proof (induction T arbitrary: p)
  case Leaf
  then show ?case by simp
next
  case (Node l x r)
  from Node.prems(1) obtain a k v n where n: "x = (a, k, v)" "p = Some a" "h a = Some n"
    "n_key n = k" "n_value n = v" "rep h (n_left n) l" "rep h (n_right n) r"
    by (rule rep_NodeE)
  from Node.prems(2) n(1) have "h' a = h a" by simp
  moreover from Node.prems(2) n(1) have "rep h' (n_left n) l"
    by (intro Node.IH(1) [OF n(6)]) simp
  moreover from Node.prems(2) n(1) have "rep h' (n_right n) r"
    by (intro Node.IH(2) [OF n(7)]) simp
  ultimately show ?case using n by simp
qed

lemma rep_allocated: "rep h p T \<Longrightarrow> a \<in> addrs T \<Longrightarrow> h a \<noteq> None"
proof (induction T arbitrary: p)
  case Leaf
  then show ?case by simp
next
  case (Node l x r)
  obtain a' k v where x: "x = (a', k, v)" by (cases x)
  from Node x show ?case by (auto split: option.splits)
qed

lemma rep_alloc_fresh:
  "rep h p T \<Longrightarrow> h a = None \<Longrightarrow> rep (h(a \<mapsto> n)) p T"
  by (rule rep_frame, assumption) (auto dest: rep_allocated)

lemma tree3_rep: "rep (t_heap tree3) (t_root tree3) shape3"
  by (simp add: tree3_def shape3_def)

lemma shape3_ordered: "ordered shape3"
  by (simp add: shape3_def ordered_def)


section \<open>Lookup\<close>

lemma GetNode_loop_rep:
  "rep h p T \<Longrightarrow>
     \<exists>r. GetNode_loop h k p = Some r \<and>
         (case r of Inl e \<Rightarrow> Inl e | Inr n \<Rightarrow> Inr (GetMapEntry n)) = Get_spec T k"
proof (induction T arbitrary: p)
  case Leaf
  then show ?case by (simp add: GetNode_loop.simps)
next
  case (Node l x r)
  from Node.prems obtain a k' v n where n: "x = (a, k', v)" "p = Some a" "h a = Some n"
    "n_key n = k'" "n_value n = v" "rep h (n_left n) l" "rep h (n_right n) r"
    by (rule rep_NodeE)
  consider (eq) "k = k'" | (lt) "k < k'" | (gt) "k' < k" by (rule linorder_cases)
  then show ?case
  proof cases
    case eq
    with n show ?thesis
      by (subst GetNode_loop.simps) (simp add: GetMapEntry_def)
  next
    case lt
    then have "k \<noteq> k'" "\<not> k' < k" by auto
    with lt n Node.IH(1) [OF n(6)] show ?thesis
      by (subst GetNode_loop.simps) simp
  next
    case gt
    then have "k \<noteq> k'" "\<not> k < k'" by auto
    with gt n Node.IH(2) [OF n(7)] show ?thesis
      by (subst GetNode_loop.simps) simp
  qed
qed

lemma Get_rep: "rep (t_heap t) (t_root t) T \<Longrightarrow> Get k t = Some (Get_spec T k)"
  using GetNode_loop_rep [of "t_heap t" "t_root t" T k]
  by (auto simp: Get_def GetNode_def)

lemma Get_spec_present:
  "ordered T \<Longrightarrow> (a, k, v) \<in> set_tree T \<Longrightarrow> Get_spec T k = Inr \<lparr>e_key = k, e_value = v\<rparr>"
proof (induction T)
  case Leaf
  then show ?case by simp
next
  case (Node l x r)
  obtain a' k' v' where x: "x = (a', k', v')" by (cases x)
  from Node.prems x have o: "ordered l" "ordered r"
    "\<forall>y \<in> set (keys l). y < k'" "\<forall>y \<in> set (keys r). k' < y"
    by (simp_all add: ordered_Node)
  from Node.prems(2) x consider (here) "(a, k, v) = (a', k', v')"
    | (left) "(a, k, v) \<in> set_tree l" | (right) "(a, k, v) \<in> set_tree r"
    by auto
  then show ?case
  proof cases
    case here
    with x show ?thesis by simp
  next
    case left
    with o(3) have "k < k'" by (auto dest: mem_keys)
    then have "k \<noteq> k'" by auto
    with \<open>k < k'\<close> x left Node.IH(1) [OF o(1)] show ?thesis by simp
  next
    case right
    with o(4) have "k' < k" by (auto dest: mem_keys)
    then have "k \<noteq> k'" "\<not> k < k'" by auto
    with x right Node.IH(2) [OF o(2)] show ?thesis by simp
  qed
qed

lemma Get_spec_absent:
  "k \<notin> set (keys T) \<Longrightarrow> Get_spec T k = Inl KeyNotFound"
proof (induction T)
  case Leaf
  then show ?case by simp
next
  case (Node l x r)
  obtain a' k' v' where x: "x = (a', k', v')" by (cases x)
  from Node x show ?case by auto
qed

text \<open>
  Claim C7. On a store that represents a search tree \<open>T\<close>, \<open>Get k\<close> returns what the
  descent of the specification returns on \<open>T\<close> (left when \<open>k\<close> is smaller than the key of
  the current node, right when it is larger): the entry \<open>{k, v}\<close> of the node that holds
  \<open>k\<close> when there is one, and the \<open>KeyNotFound\<close> error when \<open>k\<close> is not a key of \<open>T\<close>.
  \<open>Get\<close> only reads: it returns no new tree.
\<close>

theorem Get_descends:
  "rep (t_heap t) (t_root t) T \<and> ordered T \<longrightarrow>
     Get k t = Some (Get_spec T k) \<and>
     (\<forall>a v. (a, k, v) \<in> set_tree T \<longrightarrow> Get k t = Some (Inr \<lparr>e_key = k, e_value = v\<rparr>)) \<and>
     (k \<notin> set (keys T) \<longrightarrow> Get k t = Some (Inl KeyNotFound))"
  by (auto simp: Get_rep Get_spec_present Get_spec_absent)

theorem Get_descends_witness:
  "rep (t_heap tree3) (t_root tree3) shape3 \<and> ordered shape3 \<and>
   Get 3 tree3 = Some (Inr \<lparr>e_key = 3, e_value = ''three''\<rparr>) \<and>
   Get 4 tree3 = Some (Inl KeyNotFound)"
  using Get_descends [of tree3 shape3 3] Get_descends [of tree3 shape3 4]
    tree3_rep shape3_ordered
  by (simp add: shape3_def)


section \<open>Adding a key that is present\<close>

lemma Add_descend_duplicate:
  "rep h p T \<Longrightarrow> ordered T \<Longrightarrow> k \<in> set (keys T)
     \<Longrightarrow> Add_descend h k p parent st = Some (Inl DuplicateKey)"
proof (induction T arbitrary: p parent st)
  case Leaf
  then show ?case by simp
next
  case (Node l x r)
  from Node.prems(1) obtain a k' v n where n: "x = (a, k', v)" "p = Some a" "h a = Some n"
    "n_key n = k'" "n_value n = v" "rep h (n_left n) l" "rep h (n_right n) r"
    by (rule rep_NodeE)
  from Node.prems(2) n(1) have o: "ordered l" "ordered r"
    "\<forall>y \<in> set (keys l). y < k'" "\<forall>y \<in> set (keys r). k' < y"
    by (simp_all add: ordered_Node)
  consider (eq) "k = k'" | (lt) "k < k'" | (gt) "k' < k" by (rule linorder_cases)
  then show ?case
  proof cases
    case eq
    with n show ?thesis by (subst Add_descend.simps) simp
  next
    case lt
    then have ne: "k \<noteq> k'" "\<not> k' < k" by auto
    with o(4) Node.prems(3) n(1) have "k \<in> set (keys l)" by auto
    from Node.IH(1) [OF n(6) o(1) this] ne n show ?thesis
      by (subst Add_descend.simps) simp
  next
    case gt
    then have ne: "k \<noteq> k'" "\<not> k < k'" by auto
    with o(3) Node.prems(3) n(1) have "k \<in> set (keys r)" by auto
    from Node.IH(2) [OF n(7) o(2) this] ne gt n show ?thesis
      by (subst Add_descend.simps) simp
  qed
qed

text \<open>
  Claim C3. When the tree is a search tree that holds the key \<open>k\<close> with the value \<open>v2\<close>,
  \<open>Add(k, v)\<close> throws the duplicate-key error. The root, the count and every node that
  existed before are as they were (the node allocated for the call stays on the store,
  unlinked), the store still represents the same tree, and \<open>Get k\<close> still returns \<open>v2\<close>.
\<close>

theorem Add_duplicate_rejected:
  "rep (t_heap t) (t_root t) T \<and> ordered T \<and> (a, k, v2) \<in> set_tree T \<and> t_heap t node = None \<longrightarrow>
     (\<exists>t'. Add node k v t = Some (Inl DuplicateKey, t') \<and>
           t_root t' = t_root t \<and> t_count t' = t_count t \<and>
           t_traversal_method t' = t_traversal_method t \<and>
           (\<forall>p. p \<noteq> node \<longrightarrow> t_heap t' p = t_heap t p) \<and>
           rep (t_heap t') (t_root t') T \<and>
           Get k t' = Some (Inr \<lparr>e_key = k, e_value = v2\<rparr>))"
proof (intro impI, elim conjE)
  assume r: "rep (t_heap t) (t_root t) T" and o: "ordered T"
    and m: "(a, k, v2) \<in> set_tree T" and f: "t_heap t node = None"
  let ?t0 = "t\<lparr>t_heap := (t_heap t)(node \<mapsto> AVLTreeNode_new k v)\<rparr>"
  from r f have r0: "rep (t_heap ?t0) (t_root ?t0) T"
    by (simp add: rep_alloc_fresh)
  from m have "k \<in> set (keys T)" by (rule mem_keys)
  with r0 o have "Add_descend (t_heap ?t0) k (t_root ?t0) None [None] = Some (Inl DuplicateKey)"
    by (rule Add_descend_duplicate)
  then have "Add node k v t = Some (Inl DuplicateKey, ?t0)"
    by (simp add: Add_def Let_def)
  moreover from r0 o m have "Get k ?t0 = Some (Inr \<lparr>e_key = k, e_value = v2\<rparr>)"
    by (simp only: Get_rep Get_spec_present)
  ultimately show "\<exists>t'. Add node k v t = Some (Inl DuplicateKey, t') \<and>
           t_root t' = t_root t \<and> t_count t' = t_count t \<and>
           t_traversal_method t' = t_traversal_method t \<and>
           (\<forall>p. p \<noteq> node \<longrightarrow> t_heap t' p = t_heap t p) \<and>
           rep (t_heap t') (t_root t') T \<and>
           Get k t' = Some (Inr \<lparr>e_key = k, e_value = v2\<rparr>)"
    using r0 by (intro exI [of _ ?t0]) simp
qed

theorem Add_duplicate_rejected_witness:
  "rep (t_heap tree3) (t_root tree3) shape3 \<and> ordered shape3 \<and>
   (3, 3, ''three'') \<in> set_tree shape3 \<and> t_heap tree3 4 = None \<and>
   (\<exists>t'. Add 4 3 ''drei'' tree3 = Some (Inl DuplicateKey, t') \<and>
         t_root t' = Some 2 \<and> t_count t' = 3 \<and>
         Get 3 t' = Some (Inr \<lparr>e_key = 3, e_value = ''three''\<rparr>))"
proof -
  have h: "rep (t_heap tree3) (t_root tree3) shape3 \<and> ordered shape3 \<and>
     (3, 3, ''three'') \<in> set_tree shape3 \<and> t_heap tree3 4 = None"
    using tree3_rep shape3_ordered by (simp add: shape3_def tree3_def)
  from Add_duplicate_rejected [of tree3 shape3 3 3 "''three''" 4 "''drei''"] h
  obtain t' where "Add 4 3 ''drei'' tree3 = Some (Inl DuplicateKey, t')"
    "t_root t' = t_root tree3" "t_count t' = t_count tree3"
    "Get 3 t' = Some (Inr \<lparr>e_key = 3, e_value = ''three''\<rparr>)"
    by blast
  then show ?thesis using h by (auto simp: tree3_def)
qed


section \<open>The empty tree and the absent key\<close>






section \<open>Height and balance factor of small trees\<close>

text \<open>
  Claim C10. \<open>GetTreeHieight\<close> and \<open>GetTreeBalanceFactor\<close> return 0 on an empty tree, and
  they return 0 as well on the tree with one entry that \<open>Add\<close> makes of it, and on any tree
  whose root is a leaf with the cached height of a leaf.
\<close>

theorem empty_and_singleton_height:
  "GetTreeHieight (AVLTree_new h m :: ('k::linorder, 'v) AVLTree) = Some 0 \<and>
   GetTreeBalanceFactor (AVLTree_new h m :: ('k, 'v) AVLTree) = Some 0 \<and>
   (\<exists>t1. Add a k v (AVLTree_new h m) = Some (Inr (), t1) \<and>
         t_root t1 = Some a \<and> GetCount t1 = 1 \<and>
         GetTreeHieight t1 = Some 0 \<and> GetTreeBalanceFactor t1 = Some 0) \<and>
   (t_root t = Some r \<and> t_heap t r = Some n \<and> n_left n = None \<and> n_right n = None \<and>
    height_cached (t_heap t) r \<longrightarrow>
      GetTreeHieight t = Some 0 \<and> GetTreeBalanceFactor t = Some 0)"
proof (intro conjI impI)
  show "GetTreeHieight (AVLTree_new h m :: ('k, 'v) AVLTree) = Some 0"
    "GetTreeBalanceFactor (AVLTree_new h m :: ('k, 'v) AVLTree) = Some 0"
    by (simp_all add: GetTreeHieight_def GetTreeBalanceFactor_def AVLTree_new_def)
  show "\<exists>t1. Add a k v (AVLTree_new h m) = Some (Inr (), t1) \<and>
         t_root t1 = Some a \<and> GetCount t1 = 1 \<and>
         GetTreeHieight t1 = Some 0 \<and> GetTreeBalanceFactor t1 = Some 0"
    by (simp add: GetTreeHieight_def GetTreeBalanceFactor_def AVLTree_new_def Add_def Let_def
        Add_descend.simps unwind_def AVLTreeNode_new_def GetBalanceFactor_def child_height_def
        GetCount_def)
next
  assume a: "t_root t = Some r \<and> t_heap t r = Some n \<and> n_left n = None \<and> n_right n = None \<and>
    height_cached (t_heap t) r"
  then have "n_height n = 0"
    by (auto simp: height_cached_def child_height_def)
  with a show "GetTreeHieight t = Some 0" "GetTreeBalanceFactor t = Some 0"
    by (simp_all add: GetTreeHieight_def GetTreeBalanceFactor_def GetBalanceFactor_def
        child_height_def)
qed

theorem empty_and_singleton_height_witness:
  "t_root tree1 = Some 1 \<and>
   t_heap tree1 1 = Some \<lparr>n_key = 7, n_value = ''seven'', n_left = None, n_right = None,
                           n_height = 0\<rparr> \<and>
   height_cached (t_heap tree1) 1 \<and>
   GetTreeHieight tree1 = Some 0 \<and> GetTreeBalanceFactor tree1 = Some 0 \<and>
   GetTreeHieight (AVLTree_new Map.empty InOrder :: (int, string) AVLTree) = Some 0"
proof -
  have pre: "t_root tree1 = Some 1"
    "t_heap tree1 1 = Some \<lparr>n_key = 7, n_value = ''seven'', n_left = None, n_right = None,
                           n_height = 0\<rparr>"
    "height_cached (t_heap tree1) 1"
    by (simp_all add: tree1_def height_cached_def child_height_def)
  from empty_and_singleton_height [of "Map.empty :: (int, string) heap" InOrder 1 7 "''seven''"
      tree1 1
      "\<lparr>n_key = 7, n_value = ''seven'', n_left = None, n_right = None, n_height = 0\<rparr>"] pre
  show ?thesis by simp
qed


section \<open>The count\<close>

















section \<open>Traversal\<close>

lemma push_left_chain_rep:
  "rep h p T \<Longrightarrow> stk h st Ts \<Longrightarrow>
     \<exists>st' Ts'. push_left_chain h p st = Some st' \<and> stk h st' Ts' \<and>
              pending Ts' = inorder T @ pending Ts"
proof (induction T arbitrary: p st Ts)
  case Leaf
  then show ?case by (auto simp: push_left_chain.simps)
next
  case (Node l x r)
  from Node.prems(1) obtain a k v n where n: "x = (a, k, v)" "p = Some a" "h a = Some n"
    "n_key n = k" "n_value n = v" "rep h (n_left n) l" "rep h (n_right n) r"
    by (rule rep_NodeE)
  from Node.prems have "stk h (Some a # st) (Node l x r # Ts)"
    using n by simp
  from Node.IH(1) [OF n(6) this] obtain st' Ts' where
    "push_left_chain h (n_left n) (Some a # st) = Some st'" "stk h st' Ts'"
    "pending Ts' = inorder l @ pending (Node l x r # Ts)"
    by blast
  with n show ?case
    by (subst push_left_chain.simps) auto
qed

lemma push_right_chain_rep:
  "rep h p T \<Longrightarrow> stk h st Ts \<Longrightarrow>
     \<exists>st' Ts'. push_right_chain h p st = Some st' \<and> stk h st' Ts' \<and>
              pending_rev Ts' = rev (inorder T) @ pending_rev Ts"
proof (induction T arbitrary: p st Ts)
  case Leaf
  then show ?case by (auto simp: push_right_chain.simps)
next
  case (Node l x r)
  from Node.prems(1) obtain a k v n where n: "x = (a, k, v)" "p = Some a" "h a = Some n"
    "n_key n = k" "n_value n = v" "rep h (n_left n) l" "rep h (n_right n) r"
    by (rule rep_NodeE)
  from Node.prems have "stk h (Some a # st) (Node l x r # Ts)"
    using n by simp
  from Node.IH(2) [OF n(7) this] obtain st' Ts' where
    "push_right_chain h (n_right n) (Some a # st) = Some st'" "stk h st' Ts'"
    "pending_rev Ts' = rev (inorder r) @ pending_rev (Node l x r # Ts)"
    by blast
  with n show ?case
    by (subst push_right_chain.simps) auto
qed

lemma StackLeftToNull_rep:
  "rep h p T \<Longrightarrow> T \<noteq> Leaf \<Longrightarrow> stk h st Ts \<Longrightarrow>
     \<exists>st' Ts'. StackLeftToNull h (p # st) = Some st' \<and> stk h st' Ts' \<and>
              pending Ts' = inorder T @ pending Ts"
proof -
  assume r: "rep h p T" and nl: "T \<noteq> Leaf" and s: "stk h st Ts"
  from r nl obtain a n where "p = Some a" "h a = Some n"
    by (cases T) (auto elim: rep_NodeE)
  then have "StackLeftToNull h (p # st) = push_left_chain h p st"
    by (simp add: StackLeftToNull_def push_left_chain.simps [of h "Some a"])
  with push_left_chain_rep [OF r s] show ?thesis by simp
qed

lemma StackRightToNull_rep:
  "rep h p T \<Longrightarrow> T \<noteq> Leaf \<Longrightarrow> stk h st Ts \<Longrightarrow>
     \<exists>st' Ts'. StackRightToNull h (p # st) = Some st' \<and> stk h st' Ts' \<and>
              pending_rev Ts' = rev (inorder T) @ pending_rev Ts"
proof -
  assume r: "rep h p T" and nl: "T \<noteq> Leaf" and s: "stk h st Ts"
  from r nl obtain a n where "p = Some a" "h a = Some n"
    by (cases T) (auto elim: rep_NodeE)
  then have "StackRightToNull h (p # st) = push_right_chain h p st"
    by (simp add: StackRightToNull_def push_right_chain.simps [of h "Some a"])
  with push_right_chain_rep [OF r s] show ?thesis by simp
qed

lemma for_range_InOrder:
  "stk h st Ts \<Longrightarrow> i_traversal_method it = InOrder \<Longrightarrow> i_current e = None
     \<Longrightarrow> st = i_current it # i_stack it
     \<Longrightarrow> \<exists>ns. for_range h it e = Some ns \<and> map GetMapEntry ns = map entry_of (pending Ts)"
proof (induction "length (pending Ts)" arbitrary: st Ts it)
  case 0
  show ?case
  proof (cases Ts)
    case Nil
    with 0 show ?thesis by (subst for_range.simps) simp
  next
    case (Cons T Ts')
    with 0 show ?thesis by (cases T) (auto split: list.splits)
  qed
next
  case (Suc m)
  from Suc.hyps(2) obtain T Ts' where Ts: "Ts = T # Ts'" by (cases Ts) auto
  with Suc.prems(1,4) have nl: "T \<noteq> Leaf" and r: "rep h (i_current it) T"
    and s: "stk h (i_stack it) Ts'"
    by auto
  from nl obtain l x rt where T: "T = Node l x rt" by (cases T) auto
  from r T obtain a k v n where n: "x = (a, k, v)" "i_current it = Some a" "h a = Some n"
    "n_key n = k" "n_value n = v" "rep h (n_left n) l" "rep h (n_right n) rt"
    by (auto elim: rep_NodeE)
  have "\<exists>st' Ts''. (if n_right n \<noteq> None then StackLeftToNull h (n_right n # i_stack it)
                     else Some (i_stack it)) = Some st' \<and> stk h st' Ts'' \<and>
                    pending Ts'' = inorder rt @ pending Ts'"
  proof (cases "n_right n")
    case None
    with n(7) have "rt = Leaf" by (cases rt) (auto elim: rep_NodeE)
    with None s show ?thesis by auto
  next
    case (Some b)
    with n(7) have "rt \<noteq> Leaf" by auto
    from StackLeftToNull_rep [OF n(7) this s] Some show ?thesis by simp
  qed
  then obtain st' Ts'' where st': "(if n_right n \<noteq> None then StackLeftToNull h (n_right n # i_stack it)
                     else Some (i_stack it)) = Some st'" "stk h st' Ts''"
    "pending Ts'' = inorder rt @ pending Ts'"
    by blast
  from st'(2) obtain c rest where c: "st' = c # rest" by (cases Ts''; cases st') auto
  let ?it' = "it\<lparr>i_current := c, i_stack := rest\<rparr>"
  have mv: "MoveNext h it = Some ?it'"
    using Suc.prems(2) n st'(1) c by (simp add: MoveNext_def pop_to_current_def)
  from Suc.hyps(2) Ts T st'(3) have "m = length (pending Ts'')" by simp
  from Suc.hyps(1) [OF this st'(2), of ?it'] Suc.prems(2,3) c
  obtain ns where ns: "for_range h ?it' e = Some ns" "map GetMapEntry ns = map entry_of (pending Ts'')"
    by auto
  from n Suc.prems(3) mv ns have "for_range h it e = Some (n # ns)"
    by (subst for_range.simps) simp
  moreover from n have "GetMapEntry n = entry_of x"
    by (simp add: GetMapEntry_def entry_of_def)
  ultimately show ?case using ns(2) st'(3) Ts T by simp
qed

lemma for_range_ReverseOrder:
  "stk h st Ts \<Longrightarrow> i_traversal_method it = ReverseOrder \<Longrightarrow> i_current e = None
     \<Longrightarrow> st = i_current it # i_stack it
     \<Longrightarrow> \<exists>ns. for_range h it e = Some ns \<and> map GetMapEntry ns = map entry_of (pending_rev Ts)"
proof (induction "length (pending_rev Ts)" arbitrary: st Ts it)
  case 0
  show ?case
  proof (cases Ts)
    case Nil
    with 0 show ?thesis by (subst for_range.simps) simp
  next
    case (Cons T Ts')
    with 0 show ?thesis by (cases T) (auto split: list.splits)
  qed
next
  case (Suc m)
  from Suc.hyps(2) obtain T Ts' where Ts: "Ts = T # Ts'" by (cases Ts) auto
  with Suc.prems(1,4) have nl: "T \<noteq> Leaf" and r: "rep h (i_current it) T"
    and s: "stk h (i_stack it) Ts'"
    by auto
  from nl obtain lt x r' where T: "T = Node lt x r'" by (cases T) auto
  from r T obtain a k v n where n: "x = (a, k, v)" "i_current it = Some a" "h a = Some n"
    "n_key n = k" "n_value n = v" "rep h (n_left n) lt" "rep h (n_right n) r'"
    by (auto elim: rep_NodeE)
  have "\<exists>st' Ts''. (if n_left n \<noteq> None then StackRightToNull h (n_left n # i_stack it)
                     else Some (i_stack it)) = Some st' \<and> stk h st' Ts'' \<and>
                    pending_rev Ts'' = rev (inorder lt) @ pending_rev Ts'"
  proof (cases "n_left n")
    case None
    with n(6) have "lt = Leaf" by (cases lt) (auto elim: rep_NodeE)
    with None s show ?thesis by auto
  next
    case (Some b)
    with n(6) have "lt \<noteq> Leaf" by auto
    from StackRightToNull_rep [OF n(6) this s] Some show ?thesis by simp
  qed
  then obtain st' Ts'' where st': "(if n_left n \<noteq> None then StackRightToNull h (n_left n # i_stack it)
                     else Some (i_stack it)) = Some st'" "stk h st' Ts''"
    "pending_rev Ts'' = rev (inorder lt) @ pending_rev Ts'"
    by blast
  from st'(2) obtain c rest where c: "st' = c # rest" by (cases Ts''; cases st') auto
  let ?it' = "it\<lparr>i_current := c, i_stack := rest\<rparr>"
  have mv: "MoveNext h it = Some ?it'"
    using Suc.prems(2) n st'(1) c by (simp add: MoveNext_def pop_to_current_def)
  from Suc.hyps(2) Ts T st'(3) have "m = length (pending_rev Ts'')" by simp
  from Suc.hyps(1) [OF this st'(2), of ?it'] Suc.prems(2,3) c
  obtain ns where ns: "for_range h ?it' e = Some ns"
    "map GetMapEntry ns = map entry_of (pending_rev Ts'')"
    by auto
  from n Suc.prems(3) mv ns have "for_range h it e = Some (n # ns)"
    by (subst for_range.simps) simp
  moreover from n have "GetMapEntry n = entry_of x"
    by (simp add: GetMapEntry_def entry_of_def)
  ultimately show ?case using ns(2) st'(3) Ts T by simp
qed

lemma AVLTree_end_current: "\<exists>e. AVLTree_end t = Some e \<and> i_current e = None"
  by (cases "t_traversal_method t")
    (simp_all add: AVLTree_end_def Iterator_new_def SetInitalLocation_def StackLeftToNull_def
      StackRightToNull_def pop_to_current_def)

lemma traverse_InOrder:
  assumes "rep (t_heap t) (t_root t) T" "t_traversal_method t = InOrder"
  shows "\<exists>ns. traverse t = Some ns \<and> map GetMapEntry ns = map entry_of (inorder T)"
proof -
  obtain e where e: "AVLTree_end t = Some e" "i_current e = None"
    using AVLTree_end_current by blast
  let ?it0 = "\<lparr>i_current = None, i_stack = [], i_queue = [], i_traversal_method = InOrder\<rparr>"
  show ?thesis
  proof (cases T)
    case Leaf
    with assms have "AVLTree_begin t = Some (?it0\<lparr>i_current := None, i_stack := [None]\<rparr>)"
      by (simp add: AVLTree_begin_def Iterator_new_def SetInitalLocation_def
          pop_to_current_def StackLeftToNull_def)
    with e Leaf show ?thesis
      by (simp add: traverse_def for_range.simps)
  next
    case (Node l x r)
    then have "T \<noteq> Leaf" by simp
    from StackLeftToNull_rep [OF assms(1) this, of "[None]" "[]"]
    obtain st Ts where st: "StackLeftToNull (t_heap t) [t_root t, None] = Some st"
      "stk (t_heap t) st Ts" "pending Ts = inorder T"
      by auto
    from st(2) obtain c rest where c: "st = c # rest" by (cases Ts; cases st) auto
    let ?b = "?it0\<lparr>i_current := c, i_stack := rest\<rparr>"
    from st(1) c assms(2) have b: "AVLTree_begin t = Some ?b"
      by (simp add: AVLTree_begin_def Iterator_new_def SetInitalLocation_def pop_to_current_def)
    from for_range_InOrder [OF st(2), of ?b e] e(2) c st(3)
    obtain ns where "for_range (t_heap t) ?b e = Some ns"
      "map GetMapEntry ns = map entry_of (inorder T)"
      by auto
    with b e(1) show ?thesis by (simp add: traverse_def)
  qed
qed

lemma traverse_ReverseOrder:
  assumes "rep (t_heap t) (t_root t) T" "t_traversal_method t = ReverseOrder"
  shows "\<exists>ns. traverse t = Some ns \<and> map GetMapEntry ns = map entry_of (rev (inorder T))"
proof -
  obtain e where e: "AVLTree_end t = Some e" "i_current e = None"
    using AVLTree_end_current by blast
  let ?it0 = "\<lparr>i_current = None, i_stack = [], i_queue = [], i_traversal_method = ReverseOrder\<rparr>"
  show ?thesis
  proof (cases T)
    case Leaf
    with assms have "AVLTree_begin t = Some (?it0\<lparr>i_current := None, i_stack := [None]\<rparr>)"
      by (simp add: AVLTree_begin_def Iterator_new_def SetInitalLocation_def
          pop_to_current_def StackRightToNull_def)
    with e Leaf show ?thesis
      by (simp add: traverse_def for_range.simps)
  next
    case (Node l x r)
    then have "T \<noteq> Leaf" by simp
    from StackRightToNull_rep [OF assms(1) this, of "[None]" "[]"]
    obtain st Ts where st: "StackRightToNull (t_heap t) [t_root t, None] = Some st"
      "stk (t_heap t) st Ts" "pending_rev Ts = rev (inorder T)"
      by auto
    from st(2) obtain c rest where c: "st = c # rest" by (cases Ts; cases st) auto
    let ?b = "?it0\<lparr>i_current := c, i_stack := rest\<rparr>"
    from st(1) c assms(2) have b: "AVLTree_begin t = Some ?b"
      by (simp add: AVLTree_begin_def Iterator_new_def SetInitalLocation_def pop_to_current_def)
    from for_range_ReverseOrder [OF st(2), of ?b e] e(2) c st(3)
    obtain ns where "for_range (t_heap t) ?b e = Some ns"
      "map GetMapEntry ns = map entry_of (rev (inorder T))"
      by auto
    with b e(1) show ?thesis by (simp add: traverse_def)
  qed
qed

lemma roots_append [simp]: "roots (ts @ us) = roots ts @ roots us"
  by (induction ts rule: roots.induct) auto

lemma children_simps [simp]:
  "children [] = []"
  "children (T # ts) = kids T @ children ts"
  "children (ts @ us) = children ts @ children us"
  by (simp_all add: children_def)

lemma bfs_append: "bfs (ts @ us) = roots ts @ bfs (us @ children ts)"
proof (induction ts arbitrary: us)
  case Nil
  then show ?case by simp
next
  case (Cons T ts)
  have "bfs ((T # ts) @ us) = roots [T] @ bfs (ts @ (us @ kids T))" by simp
  also have "\<dots> = roots [T] @ roots ts @ bfs ((us @ kids T) @ children ts)"
    by (simp only: Cons.IH)
  finally show ?case by (cases T) simp_all
qed

lemma height_kids: "S \<in> set (kids T) \<Longrightarrow> height T = Suc n \<Longrightarrow> height S \<le> n"
  by (cases T) (auto split: if_splits)

lemma bfs_levels: "\<forall>T \<in> set ts. height T \<le> n \<Longrightarrow> bfs ts = levels n ts"
proof (induction n arbitrary: ts)
  case 0
  then have "roots ts = []" "children ts = []"
    by (induction ts) auto
  with bfs_append [of ts "[]"] show ?case by simp
next
  case (Suc n)
  have "\<forall>S \<in> set (children ts). height S \<le> n"
  proof
    fix S assume "S \<in> set (children ts)"
    then obtain T where T: "T \<in> set ts" "S \<in> set (kids T)"
      by (auto simp: children_def)
    with Suc.prems have "height T \<le> Suc n" by simp
    with T(2) show "height S \<le> n"
      by (cases T) (auto split: if_splits)
  qed
  from Suc.IH [OF this] bfs_append [of ts "[]"] show ?case by simp
qed

lemma bfs_levelorder: "bfs [T] = levelorder T"
  by (simp add: levelorder_def bfs_levels del: bfs.simps)

lemma mset_roots_children:
  "mset (roots ts) + (\<Sum>T\<leftarrow>children ts. mset (inorder T)) = (\<Sum>T\<leftarrow>ts. mset (inorder T))"
proof (induction ts)
  case Nil
  then show ?case by simp
next
  case (Cons T ts)
  then show ?case by (cases T) (auto simp: ac_simps)
qed

lemma mset_bfs: "mset (bfs ts) = (\<Sum>T\<leftarrow>ts. mset (inorder T))"
proof (induction ts rule: bfs.induct)
  case 1
  then show ?case by simp
next
  case (2 T q)
  then show ?case by (cases T) (auto simp: ac_simps)
qed

lemma mset_levelorder: "mset (levelorder T) = mset (inorder T)"
  using mset_bfs [of "[T]"] by (simp add: bfs_levelorder del: bfs.simps)

lemma rep_null_iff: "rep h p T \<Longrightarrow> p = None \<longleftrightarrow> T = Leaf"
  by (cases T) (auto elim: rep_NodeE)

lemma enqueue_children_rep:
  assumes "qrep h q ts" "h a = Some n" "rep h (Some a) T"
  shows "qrep h (enqueue_children n q) (ts @ kids T)"
proof -
  from assms(3) obtain l x r where T: "T = Node l x r" by (cases T) auto
  with assms(2,3) have c: "rep h (n_left n) l" "rep h (n_right n) r"
    by (auto elim: rep_NodeE)
  then have "n_left n = None \<longleftrightarrow> l = Leaf" "n_right n = None \<longleftrightarrow> r = Leaf"
    by (simp_all add: rep_null_iff)
  with assms(1) c T show ?thesis
    by (auto simp: enqueue_children_def qrep_def Let_def list_all2_appendI)
qed

lemma for_range_TopDown:
  "qrep h q ts \<Longrightarrow> rep h (Some a) T \<Longrightarrow> i_traversal_method it = TopDown \<Longrightarrow> i_current e = None
     \<Longrightarrow> i_current it = Some a \<Longrightarrow> i_queue it = q
     \<Longrightarrow> \<exists>ns. for_range h it e = Some ns \<and>
              map GetMapEntry ns = map entry_of (roots [T] @ bfs ts)"
proof (induction ts arbitrary: q a T it rule: bfs.induct)
  case 1
  from "1.prems"(2) obtain l x r k v n where n: "T = Node l x r" "x = (a, k, v)" "h a = Some n"
    "n_key n = k" "n_value n = v"
    by (cases T) (auto elim: rep_NodeE)
  from "1.prems"(1) have q: "q = []" by (simp add: qrep_def)
  with "1.prems" have mv: "MoveNext h it = Some (it\<lparr>i_current := None\<rparr>)"
    by (simp add: MoveNext_def)
  from "1.prems"(4) have "for_range h (it\<lparr>i_current := None\<rparr>) e = Some []"
    by (subst for_range.simps) simp
  with mv n "1.prems" have "for_range h it e = Some [n]"
    by (subst for_range.simps) simp
  with n show ?case by (simp add: GetMapEntry_def entry_of_def)
next
  case (2 F ts)
  from "2.prems"(2) obtain l x r k v n where n: "T = Node l x r" "x = (a, k, v)" "h a = Some n"
    "n_key n = k" "n_value n = v"
    by (cases T) (auto elim: rep_NodeE)
  from "2.prems"(1) obtain f q' where q: "q = f # q'" "F \<noteq> Leaf" "rep h f F" "qrep h q' ts"
    by (auto simp: qrep_def list_all2_Cons2)
  then obtain b m where f: "f = Some b" "h b = Some m"
    by (cases F) (auto elim: rep_NodeE)
  let ?it' = "it\<lparr>i_current := f, i_queue := enqueue_children m q'\<rparr>"
  from "2.prems" q f have mv: "MoveNext h it = Some ?it'"
    by (simp add: MoveNext_def)
  from q f have "qrep h (enqueue_children m q') (ts @ kids F)"
    by (intro enqueue_children_rep) auto
  from "2.IH" [OF this, of b F ?it'] q f "2.prems"(3,4)
  obtain ns where ns: "for_range h ?it' e = Some ns"
    "map GetMapEntry ns = map entry_of (roots [F] @ bfs (ts @ kids F))"
    by auto
  with mv n "2.prems" have "for_range h it e = Some (n # ns)"
    by (subst for_range.simps) simp
  moreover from n have "GetMapEntry n = entry_of x"
    by (simp add: GetMapEntry_def entry_of_def)
  ultimately show ?case using n(1) ns(2) by simp
qed

lemma traverse_TopDown:
  assumes "rep (t_heap t) (t_root t) T" "t_traversal_method t = TopDown"
  shows "\<exists>ns. traverse t = Some ns \<and> map GetMapEntry ns = map entry_of (levelorder T)"
proof -
  obtain e where e: "AVLTree_end t = Some e" "i_current e = None"
    using AVLTree_end_current by blast
  let ?it0 = "\<lparr>i_current = None, i_stack = [], i_queue = [], i_traversal_method = TopDown\<rparr>"
  show ?thesis
  proof (cases T)
    case Leaf
    with assms have "AVLTree_begin t = Some (?it0\<lparr>i_current := None, i_queue := []\<rparr>)"
      by (simp add: AVLTree_begin_def Iterator_new_def SetInitalLocation_def)
    with e Leaf show ?thesis
      by (simp add: traverse_def for_range.simps levelorder_def)
  next
    case (Node l x r)
    with assms(1) obtain a n where a: "t_root t = Some a" "t_heap t a = Some n"
      by (auto elim: rep_NodeE)
    let ?b = "?it0\<lparr>i_current := t_root t, i_queue := enqueue_children n []\<rparr>"
    from a assms(2) have b: "AVLTree_begin t = Some ?b"
      by (simp add: AVLTree_begin_def Iterator_new_def SetInitalLocation_def)
    from assms(1) a have "qrep (t_heap t) (enqueue_children n []) ([] @ kids T)"
      by (intro enqueue_children_rep) (auto simp: qrep_def)
    from for_range_TopDown [OF this, of a T ?b e] assms(1) a e(2)
    obtain ns where "for_range (t_heap t) ?b e = Some ns"
      "map GetMapEntry ns = map entry_of (roots [T] @ bfs (kids T))"
      by auto
    moreover have "roots [T] @ bfs (kids T) = levelorder T"
      using bfs_levelorder [of T] by simp
    ultimately show ?thesis using b e(1) by (simp add: traverse_def)
  qed
qed


lemma sorted_keys_nodes:
  "map GetMapEntry ns = map entry_of xs \<Longrightarrow> map n_key ns = map (\<lambda>(a, k, v). k) xs"
proof (induction ns arbitrary: xs)
  case Nil
  then show ?case by simp
next
  case (Cons n ns)
  then obtain x xs' where "xs = x # xs'" by (cases xs) auto
  with Cons show ?case
    by (cases x) (auto simp: GetMapEntry_def entry_of_def)
qed

text \<open>
  Claim C6. On a store that represents a search tree \<open>T\<close> with \<open>n = size T\<close> entries, the
  range-based loop over the tree returns: in mode \<open>InOrder\<close> the \<open>n\<close> entries of \<open>T\<close> in
  order, with strictly increasing keys; in mode \<open>ReverseOrder\<close> the same entries reversed,
  with strictly decreasing keys; in mode \<open>TopDown\<close> the entries level by level from the
  root, which are the \<open>n\<close> entries of \<open>T\<close>, no key twice, the root first.
\<close>

theorem traversal_complete:
  "rep (t_heap t) (t_root t) T \<and> ordered T \<longrightarrow>
     (\<exists>ns. traverse (SetTraversalMethod InOrder t) = Some ns \<and>
           map GetMapEntry ns = entries T \<and> length ns = size T \<and>
           sorted_wrt (<) (map n_key ns)) \<and>
     (\<exists>ns. traverse (SetTraversalMethod ReverseOrder t) = Some ns \<and>
           map GetMapEntry ns = rev (entries T) \<and> length ns = size T \<and>
           sorted_wrt (>) (map n_key ns)) \<and>
     (\<exists>ns. traverse (SetTraversalMethod TopDown t) = Some ns \<and>
           map GetMapEntry ns = map entry_of (levelorder T) \<and> length ns = size T \<and>
           mset (map GetMapEntry ns) = mset (entries T) \<and> distinct (map n_key ns) \<and>
           (\<forall>l x r. T = Node l x r \<longrightarrow> map GetMapEntry (take 1 ns) = [entry_of x]))"
proof (intro impI conjI; elim conjE)
  assume r: "rep (t_heap t) (t_root t) T" and o: "ordered T"
  from r have r': "\<And>m. rep (t_heap (SetTraversalMethod m t)) (t_root (SetTraversalMethod m t)) T"
    by (simp add: SetTraversalMethod_def)
  have m: "\<And>m. t_traversal_method (SetTraversalMethod m t) = m"
    by (simp add: SetTraversalMethod_def)
  from traverse_InOrder [OF r' m] obtain ns where
    ns: "traverse (SetTraversalMethod InOrder t) = Some ns"
      "map GetMapEntry ns = map entry_of (inorder T)"
    by blast
  have "length ns = size T"
    using arg_cong [OF ns(2), of length] by simp
  moreover from sorted_keys_nodes [OF ns(2)] o have "sorted_wrt (<) (map n_key ns)"
    by (simp add: ordered_def keys_def)
  ultimately show "\<exists>ns. traverse (SetTraversalMethod InOrder t) = Some ns \<and>
           map GetMapEntry ns = entries T \<and> length ns = size T \<and>
           sorted_wrt (<) (map n_key ns)"
    using ns by (auto simp: entries_def)
next
  assume r: "rep (t_heap t) (t_root t) T" and o: "ordered T"
  from r have r': "\<And>m. rep (t_heap (SetTraversalMethod m t)) (t_root (SetTraversalMethod m t)) T"
    by (simp add: SetTraversalMethod_def)
  have m: "\<And>m. t_traversal_method (SetTraversalMethod m t) = m"
    by (simp add: SetTraversalMethod_def)
  from traverse_ReverseOrder [OF r' m] obtain ns where
    ns: "traverse (SetTraversalMethod ReverseOrder t) = Some ns"
      "map GetMapEntry ns = map entry_of (rev (inorder T))"
    by blast
  have "length ns = size T"
    using arg_cong [OF ns(2), of length] by simp
  moreover from sorted_keys_nodes [OF ns(2)] o have "sorted_wrt (>) (map n_key ns)"
    by (simp add: ordered_def keys_def sorted_wrt_rev rev_map [symmetric])
  ultimately show "\<exists>ns. traverse (SetTraversalMethod ReverseOrder t) = Some ns \<and>
           map GetMapEntry ns = rev (entries T) \<and> length ns = size T \<and>
           sorted_wrt (>) (map n_key ns)"
    using ns by (auto simp: entries_def rev_map)
next
  assume r: "rep (t_heap t) (t_root t) T" and o: "ordered T"
  from r have r': "\<And>m. rep (t_heap (SetTraversalMethod m t)) (t_root (SetTraversalMethod m t)) T"
    by (simp add: SetTraversalMethod_def)
  have m: "\<And>m. t_traversal_method (SetTraversalMethod m t) = m"
    by (simp add: SetTraversalMethod_def)
  from traverse_TopDown [OF r' m] obtain ns where
    ns: "traverse (SetTraversalMethod TopDown t) = Some ns"
      "map GetMapEntry ns = map entry_of (levelorder T)"
    by blast
  have ms: "mset (map GetMapEntry ns) = mset (entries T)"
    using mset_levelorder [of T] ns(2) by (simp add: entries_def)
  then have "length ns = size T"
    using mset_eq_length [OF ms] by (simp add: entries_def)
  moreover have "\<forall>l x r. T = Node l x r \<longrightarrow> map GetMapEntry (take 1 ns) = [entry_of x]"
    using ns(2) by (auto simp: levelorder_def take_map [symmetric] simp del: bfs.simps)
  moreover have "distinct (map n_key ns)"
  proof -
    have e: "mset (map n_key ns) = mset (keys T)"
      using sorted_keys_nodes [OF ns(2)]
        arg_cong [OF mset_levelorder [of T], of "image_mset (\<lambda>(a, k, v). k)"]
      by (simp add: keys_def)
    from o have "distinct (keys T)"
      by (simp add: ordered_def strict_sorted_iff)
    with mset_eq_imp_distinct_iff [OF e] show ?thesis by (simp only:)
  qed
  ultimately show "\<exists>ns. traverse (SetTraversalMethod TopDown t) = Some ns \<and>
           map GetMapEntry ns = map entry_of (levelorder T) \<and> length ns = size T \<and>
           mset (map GetMapEntry ns) = mset (entries T) \<and> distinct (map n_key ns) \<and>
           (\<forall>l x r. T = Node l x r \<longrightarrow> map GetMapEntry (take 1 ns) = [entry_of x])"
    using ns ms by blast
qed

theorem traversal_complete_witness:
  "rep (t_heap tree8) (t_root tree8) shape8 \<and> ordered shape8 \<and>
   map_option (map n_key) (traverse (SetTraversalMethod InOrder tree8))
     = Some [1, 2, 3, 4, 5, 6, 7, 8] \<and>
   map_option (map n_key) (traverse (SetTraversalMethod ReverseOrder tree8))
     = Some [8, 7, 6, 5, 4, 3, 2, 1] \<and>
   map_option (map n_key) (traverse (SetTraversalMethod TopDown tree8))
     = Some [4, 2, 6, 1, 3, 5, 7, 8]"
proof -
  have pre: "rep (t_heap tree8) (t_root tree8) shape8 \<and> ordered shape8"
    by (simp add: tree8_def shape8_def ordered_def)
  have k: "\<And>ns :: (int, string) AVLTreeNode list. map n_key ns = map e_key (map GetMapEntry ns)"
    by (simp add: GetMapEntry_def)
  from traversal_complete [of tree8 shape8] pre obtain ns1 ns2 ns3 where
    "traverse (SetTraversalMethod InOrder tree8) = Some ns1" "map GetMapEntry ns1 = entries shape8"
    "traverse (SetTraversalMethod ReverseOrder tree8) = Some ns2"
    "map GetMapEntry ns2 = rev (entries shape8)"
    "traverse (SetTraversalMethod TopDown tree8) = Some ns3"
    "map GetMapEntry ns3 = map entry_of (levelorder shape8)"
    by blast
  then have "map_option (map n_key) (traverse (SetTraversalMethod InOrder tree8))
       = Some (map e_key (entries shape8))"
    "map_option (map n_key) (traverse (SetTraversalMethod ReverseOrder tree8))
       = Some (map e_key (rev (entries shape8)))"
    "map_option (map n_key) (traverse (SetTraversalMethod TopDown tree8))
       = Some (map e_key (map entry_of (levelorder shape8)))"
    by (simp_all only: k option.map)
  moreover have "map e_key (entries shape8) = [1, 2, 3, 4, 5, 6, 7, 8]"
    by (simp add: entries_def entry_of_def shape8_def)
  moreover have "map e_key (rev (entries shape8)) = [8, 7, 6, 5, 4, 3, 2, 1]"
    by (simp add: entries_def entry_of_def shape8_def)
  moreover have "map e_key (map entry_of (levelorder shape8)) = [4, 2, 6, 1, 3, 5, 7, 8]"
    by (simp add: levelorder_def entry_of_def shape8_def children_def eval_nat_numeral)
  ultimately show ?thesis using pre by (simp only: simp_thms)
qed


section \<open>Rotations\<close>

lemma rep_addr_key:
  "rep h p T \<Longrightarrow> a \<in> addrs T \<Longrightarrow> \<exists>n. h a = Some n \<and> n_key n \<in> set (keys T)"
proof (induction T arbitrary: p)
  case Leaf
  then show ?case by simp
next
  case (Node l x r)
  from Node.prems(1) obtain a' k v n where n: "x = (a', k, v)" "p = Some a'" "h a' = Some n"
    "n_key n = k" "n_value n = v" "rep h (n_left n) l" "rep h (n_right n) r"
    by (rule rep_NodeE)
  from Node.prems(2) n(1) consider "a = a'" | "a \<in> addrs l" | "a \<in> addrs r" by auto
  then show ?case
  proof cases
    case 1
    with n show ?thesis by simp
  next
    case 2
    from Node.IH(1) [OF n(6) this] n(1) show ?thesis by auto
  next
    case 3
    from Node.IH(2) [OF n(7) this] n(1) show ?thesis by auto
  qed
qed

lemma rep_ordered_disjoint:
  assumes "rep h p (Node l (a, k, v) r)" "ordered (Node l (a, k, v) r)"
  shows "a \<notin> addrs l" "a \<notin> addrs r" "addrs l \<inter> addrs r = {}"
proof -
  from assms(1) obtain n where n: "h a = Some n" "n_key n = k"
    "rep h (n_left n) l" "rep h (n_right n) r"
    by (auto split: option.splits)
  from assms(2) have o: "\<forall>y \<in> set (keys l). y < k" "\<forall>y \<in> set (keys r). k < y"
    by (simp_all add: ordered_Node)
  show "a \<notin> addrs l"
  proof
    assume "a \<in> addrs l"
    from rep_addr_key [OF n(3) this] n o show False by auto
  qed
  show "a \<notin> addrs r"
  proof
    assume "a \<in> addrs r"
    from rep_addr_key [OF n(4) this] n o show False by auto
  qed
  show "addrs l \<inter> addrs r = {}"
  proof (rule ccontr)
    assume "addrs l \<inter> addrs r \<noteq> {}"
    then obtain b where b: "b \<in> addrs l" "b \<in> addrs r" by auto
    from rep_addr_key [OF n(3) b(1)] obtain m where m: "h b = Some m" "n_key m \<in> set (keys l)"
      by blast
    from rep_addr_key [OF n(4) b(2)] m have "n_key m \<in> set (keys r)" by auto
    with m(2) o have "n_key m < k" "k < n_key m" by auto
    then show False by simp
  qed
qed

lemma rep_left_child_in:
  "rep h q T \<Longrightarrow> a \<in> addrs T \<Longrightarrow> h a = Some n \<Longrightarrow> n_left n = Some c \<Longrightarrow> c \<in> addrs T"
proof (induction T arbitrary: q)
  case Leaf
  then show ?case by simp
next
  case (Node l x r)
  from Node.prems(1) obtain a' k v n' where n: "x = (a', k, v)" "q = Some a'" "h a' = Some n'"
    "rep h (n_left n') l" "rep h (n_right n') r"
    by (rule rep_NodeE)
  show ?case
  proof (cases "a = a'")
    case True
    with n Node.prems have "rep h (Some c) l" by simp
    then have "c \<in> addrs l" by (cases l) (auto elim!: rep_NodeE)
    with n show ?thesis by simp
  next
    case False
    with Node.prems(2) n consider "a \<in> addrs l" | "a \<in> addrs r" by auto
    then show ?thesis
    proof cases
      case 1
      from Node.IH(1) [OF n(4) this Node.prems(3,4)] n show ?thesis by simp
    next
      case 2
      from Node.IH(2) [OF n(5) this Node.prems(3,4)] n show ?thesis by simp
    qed
  qed
qed

lemma rep_right_child_in:
  "rep h q T \<Longrightarrow> a \<in> addrs T \<Longrightarrow> h a = Some n \<Longrightarrow> n_right n = Some c \<Longrightarrow> c \<in> addrs T"
proof (induction T arbitrary: q)
  case Leaf
  then show ?case by simp
next
  case (Node l x r)
  from Node.prems(1) obtain a' k v n' where n: "x = (a', k, v)" "q = Some a'" "h a' = Some n'"
    "rep h (n_left n') l" "rep h (n_right n') r"
    by (rule rep_NodeE)
  show ?case
  proof (cases "a = a'")
    case True
    with n Node.prems have "rep h (Some c) r" by simp
    then have "c \<in> addrs r" by (cases r) (auto elim!: rep_NodeE)
    with n show ?thesis by simp
  next
    case False
    with Node.prems(2) n consider "a \<in> addrs l" | "a \<in> addrs r" by auto
    then show ?thesis
    proof cases
      case 1
      from Node.IH(1) [OF n(4) this Node.prems(3,4)] n show ?thesis by simp
    next
      case 2
      from Node.IH(2) [OF n(5) this Node.prems(3,4)] n show ?thesis by simp
    qed
  qed
qed

lemma rotate_right_at_fresh: "a \<notin> addrs T \<Longrightarrow> rotate_right_at a T = T"
proof (induction T)
  case Leaf
  then show ?case by simp
next
  case (Node l x r)
  then show ?case by (cases x) auto
qed

lemma parent_in_None: "parent_in up T a = None \<longleftrightarrow> a \<notin> addrs T"
proof (induction T arbitrary: up)
  case Leaf
  then show ?case by simp
next
  case (Node l x r)
  obtain b k v where x: "x = (b, k, v)" by (cases x)
  from Node [of "Some b"] x show ?case by (auto split: option.splits)
qed

lemma parent_in_addrs:
  "parent_in up T a = Some q \<Longrightarrow> q = up \<or> (\<exists>p. q = Some p \<and> p \<in> addrs T)"
proof (induction T arbitrary: up)
  case Leaf
  then show ?case by simp
next
  case (Node l x r)
  obtain b k v where x: "x = (b, k, v)" by (cases x)
  show ?case
  proof (cases "b = a")
    case True
    with Node.prems x show ?thesis by simp
  next
    case False
    show ?thesis
    proof (cases "parent_in (Some b) l a")
      case None
      with Node.prems x False have "parent_in (Some b) r a = Some q" by simp
      from Node.IH(2) [OF this] x show ?thesis by auto
    next
      case (Some q')
      with Node.prems x False have "parent_in (Some b) l a = Some q" by simp
      from Node.IH(1) [OF this] x show ?thesis by auto
    qed
  qed
qed

text \<open>Below the root, the parent is a node of the tree.\<close>

lemma parent_in_below:
  assumes "parent_in up (Node l (b, k, v) r) a = Some q" "b \<noteq> a"
  shows "\<exists>p. q = Some p \<and> p \<in> addrs (Node l (b, k, v) r)"
proof (cases "parent_in (Some b) l a")
  case None
  with assms have "parent_in (Some b) r a = Some q" by simp
  from parent_in_addrs [OF this] show ?thesis by auto
next
  case (Some q')
  with assms have "parent_in (Some b) l a = Some q" by simp
  from parent_in_addrs [OF this] show ?thesis by auto
qed

lemma rewired_right_frame:
  assumes "rewired_right h H node l parent" "rep h q T" "node \<notin> addrs T" "l \<notin> addrs T"
    "\<And>p. parent = Some p \<Longrightarrow> p \<notin> addrs T"
  shows "rep H q T"
proof (rule rep_frame [OF assms(2)])
  fix a assume a: "a \<in> addrs T"
  with assms(3,4) have "a \<noteq> node" "a \<noteq> l" by auto
  moreover from a assms(5) have "Some a \<noteq> parent" by auto
  ultimately show "H a = h a" using assms(1) by (auto simp: rewired_right_def)
qed

text \<open>The rotation of the subtree below \<open>node\<close>.\<close>

lemma rep_rotate_right_local:
  assumes r: "rep h (Some node) S" and o: "ordered S"
    and w: "rewired_right h H node l parent"
    and p: "\<And>p. parent = Some p \<Longrightarrow> p \<notin> addrs S"
  shows "rep H (Some l) (rotate_right_at node S)"
proof -
  from w obtain n ln hn hl where n: "h node = Some n" "h l = Some ln" "n_left n = Some l"
    and H: "H node = Some (n\<lparr>n_left := n_right ln, n_height := hn\<rparr>)"
      "H l = Some (ln\<lparr>n_right := Some node, n_height := hl\<rparr>)"
    by (auto simp: rewired_right_def)
  from r n obtain L x C where S: "S = Node L x C" "fst x = node" "rep h (Some l) L"
    "rep h (n_right n) C" "n_key n = fst (snd x)" "n_value n = snd (snd x)"
    by (cases S) (auto elim!: rep_NodeE)
  from S(3) n obtain A y B where L: "L = Node A y B" "fst y = l" "rep h (n_left ln) A"
    "rep h (n_right ln) B" "n_key ln = fst (snd y)" "n_value ln = snd (snd y)"
    by (cases L) (auto elim!: rep_NodeE)
  obtain k v where x: "x = (node, k, v)" using S(2) by (cases x) auto
  obtain k' v' where y: "y = (l, k', v')" using L(2) by (cases y) auto
  from rep_ordered_disjoint [of h "Some node" L node k v C] r o S x
  have d1: "node \<notin> addrs L" "node \<notin> addrs C" "addrs L \<inter> addrs C = {}" by auto
  from o S x have oL: "ordered L" by (simp add: ordered_Node)
  from rep_ordered_disjoint [of h "Some l" A l k' v' B] S(3) oL L y
  have d2: "l \<notin> addrs A" "l \<notin> addrs B" "addrs A \<inter> addrs B = {}" by auto
  from d1 L y have d3: "node \<noteq> l" "node \<notin> addrs A" "node \<notin> addrs B" "l \<notin> addrs C" by auto
  from p S L x y have d4: "\<And>p. parent = Some p \<Longrightarrow> p \<notin> addrs A"
    "\<And>p. parent = Some p \<Longrightarrow> p \<notin> addrs B" "\<And>p. parent = Some p \<Longrightarrow> p \<notin> addrs C"
    by auto
  have fA: "rep H (n_left ln) A"
    using w L(3) d3(2) d2(1) d4(1) by (rule rewired_right_frame)
  have fB: "rep H (n_right ln) B"
    using w L(4) d3(3) d2(2) d4(2) by (rule rewired_right_frame)
  have fC: "rep H (n_right n) C"
    using w S(4) d1(2) d3(4) d4(3) by (rule rewired_right_frame)
  from fA fB fC H S L x y show ?thesis by simp
qed

text \<open>The rotation below a node that lies strictly inside the tree \<open>T\<close>.\<close>

lemma rep_rotate_right_inside:
  "rep h q T \<Longrightarrow> ordered T \<Longrightarrow> rewired_right h H node l (Some p)
     \<Longrightarrow> parent_in up T node = Some (Some p) \<Longrightarrow> q \<noteq> Some node
     \<Longrightarrow> rep H q (rotate_right_at node T)"
proof (induction T arbitrary: q up)
  case Leaf
  then show ?case by simp
next
  case (Node L x R)
  from Node.prems(1) obtain b k v bn where bn: "x = (b, k, v)" "q = Some b" "h b = Some bn"
    "n_key bn = k" "n_value bn = v" "rep h (n_left bn) L" "rep h (n_right bn) R"
    by (rule rep_NodeE)
  from Node.prems(5) bn have ne: "b \<noteq> node" by simp
  from Node.prems(2) bn have o: "ordered L" "ordered R"
    "\<forall>y \<in> set (keys L). y < k" "\<forall>y \<in> set (keys R). k < y"
    by (simp_all add: ordered_Node)
  from rep_ordered_disjoint [of h q L b k v R] Node.prems(1,2) bn
  have d: "b \<notin> addrs L" "b \<notin> addrs R" "addrs L \<inter> addrs R = {}" by auto
  from Node.prems(3) obtain n ln pn where n: "h node = Some n" "h l = Some ln"
    "n_left n = Some l" "h p = Some pn"
    and H: "H p = Some (if n_key ln < n_key pn then pn\<lparr>n_left := Some l\<rparr>
                   else pn\<lparr>n_right := Some l\<rparr>)"
      "\<forall>a. a \<noteq> node \<and> a \<noteq> l \<and> a \<noteq> p \<longrightarrow> H a = h a"
    by (auto simp: rewired_right_def)
  show ?case
  proof (cases "parent_in (Some b) L node")
    case (Some pp)
    with Node.prems(4) bn ne have pin: "parent_in (Some b) L node = Some (Some p)" by simp
    then have inL: "node \<in> addrs L" using parent_in_None [of "Some b" L node] by auto
    with d have notR: "node \<notin> addrs R" by auto
    from rep_left_child_in [OF bn(6) inL n(1,3)] have lin: "l \<in> addrs L" .
    with d have lR: "l \<notin> addrs R" by auto
    from rep_addr_key [OF bn(6) lin] n have lk: "n_key ln \<in> set (keys L)" by auto
    from inL obtain Ll y Lr where L: "L = Node Ll y Lr" by (cases L) auto
    obtain c k' v' where y: "y = (c, k', v')" by (cases y)
    from bn(6) L y have c: "n_left bn = Some c" by auto
    show ?thesis
    proof (cases "c = node")
      case True
      with pin L y have pb: "p = b" by simp
      from bn(6) c True have rl: "rep h (Some node) L" by simp
      from rep_rotate_right_local [OF rl o(1) Node.prems(3)] d pb
      have rot: "rep H (Some l) (rotate_right_at node L)" by simp
      from lk o(3) pb bn n have lt: "n_key ln < n_key pn" by auto
      have fR: "rep H (n_right bn) R"
        using Node.prems(3) bn(7) notR lR d pb by (intro rewired_right_frame [of h H node l "Some p"]) auto
      from lt H(1) pb bn n have Hb: "H b = Some (bn\<lparr>n_left := Some l\<rparr>)" by simp
      from rot fR Hb bn ne rotate_right_at_fresh [OF notR] show ?thesis by simp
    next
      case False
      with c have qn: "n_left bn \<noteq> Some node" by simp
      from Node.IH(1) [OF bn(6) o(1) Node.prems(3) pin qn]
      have rot: "rep H (n_left bn) (rotate_right_at node L)" .
      from parent_in_below [of "Some b" Ll c k' v' Lr node "Some p"] pin L y False
      have "p \<in> addrs L" by auto
      with lin d have notb: "b \<noteq> p" "b \<noteq> l" "p \<notin> addrs R" by auto
      have fR: "rep H (n_right bn) R"
        using Node.prems(3) bn(7) notR lR notb by (intro rewired_right_frame [of h H node l "Some p"]) auto
      from H(2) ne notb bn have Hb: "H b = Some bn" by simp
      from rot fR Hb bn ne rotate_right_at_fresh [OF notR] show ?thesis by simp
    qed
  next
    case None
    then have notL: "node \<notin> addrs L" by (simp add: parent_in_None)
    from None Node.prems(4) bn ne have pin: "parent_in (Some b) R node = Some (Some p)" by simp
    then have inR: "node \<in> addrs R" using parent_in_None [of "Some b" R node] by auto
    from rep_left_child_in [OF bn(7) inR n(1,3)] have lin: "l \<in> addrs R" .
    with d have lL: "l \<notin> addrs L" by auto
    from rep_addr_key [OF bn(7) lin] n have lk: "n_key ln \<in> set (keys R)" by auto
    from inR obtain Rl y Rr where R: "R = Node Rl y Rr" by (cases R) auto
    obtain c k' v' where y: "y = (c, k', v')" by (cases y)
    from bn(7) R y have c: "n_right bn = Some c" by auto
    show ?thesis
    proof (cases "c = node")
      case True
      with pin R y have pb: "p = b" by simp
      from bn(7) c True have rl: "rep h (Some node) R" by simp
      from rep_rotate_right_local [OF rl o(2) Node.prems(3)] d pb
      have rot: "rep H (Some l) (rotate_right_at node R)" by simp
      from lk o(4) pb bn n have lt: "\<not> n_key ln < n_key pn" by auto
      have fL: "rep H (n_left bn) L"
        using Node.prems(3) bn(6) notL lL d pb by (intro rewired_right_frame [of h H node l "Some p"]) auto
      from lt H(1) pb bn n have Hb: "H b = Some (bn\<lparr>n_right := Some l\<rparr>)" by simp
      from rot fL Hb bn ne rotate_right_at_fresh [OF notL] show ?thesis by simp
    next
      case False
      with c have qn: "n_right bn \<noteq> Some node" by simp
      from Node.IH(2) [OF bn(7) o(2) Node.prems(3) pin qn]
      have rot: "rep H (n_right bn) (rotate_right_at node R)" .
      from parent_in_below [of "Some b" Rl c k' v' Rr node "Some p"] pin R y False
      have "p \<in> addrs R" by auto
      with lin d have notb: "b \<noteq> p" "b \<noteq> l" "p \<notin> addrs L" by auto
      have fL: "rep H (n_left bn) L"
        using Node.prems(3) bn(6) notL lL notb by (intro rewired_right_frame [of h H node l "Some p"]) auto
      from H(2) ne notb bn have Hb: "H b = Some bn" by simp
      from rot fL Hb bn ne rotate_right_at_fresh [OF notL] show ?thesis by simp
    qed
  qed
qed

lemma SetLeft_Some: "h p = Some n \<Longrightarrow> SetLeft h p q = Some (h(p \<mapsto> n\<lparr>n_left := q\<rparr>))"
  by (simp add: SetLeft_def)

lemma SetRight_Some: "h p = Some n \<Longrightarrow> SetRight h p q = Some (h(p \<mapsto> n\<lparr>n_right := q\<rparr>))"
  by (simp add: SetRight_def)

lemma CalculateHeight_Some:
  "h p = Some n \<Longrightarrow> child_height h (n_left n) = Some a \<Longrightarrow> child_height h (n_right n) = Some b
     \<Longrightarrow> CalculateHeight h p = Some (h(p \<mapsto> n\<lparr>n_height := (if b > a then b + 1 else a + 1)\<rparr>))"
  by (simp add: CalculateHeight_def)

lemma child_height_upd_other: "c \<noteq> Some a \<Longrightarrow> child_height (h(a \<mapsto> m)) c = child_height h c"
  by (auto simp: child_height_def split: option.splits)

lemma child_height_upd_same: "child_height (h(a \<mapsto> m)) (Some a) = Some (n_height m)"
  by (simp add: child_height_def)

lemma child_height_upd_keep:
  "h a = Some m0 \<Longrightarrow> n_height m = n_height m0 \<Longrightarrow> child_height (h(a \<mapsto> m)) c = child_height h c"
  by (auto simp: child_height_def split: option.splits)

lemma RotateRight_rewired:
  assumes n: "t_heap t node = Some n" "n_left n = Some l" "t_heap t l = Some ln" "node \<noteq> l"
    and ch: "child_height (t_heap t) (n_left ln) = Some a0"
      "child_height (t_heap t) (n_right ln) = Some b0"
      "child_height (t_heap t) (n_right n) = Some c0"
    and na: "n_left ln \<noteq> Some node" "n_left ln \<noteq> Some l" "n_right ln \<noteq> Some node"
      "n_right ln \<noteq> Some l" "n_right n \<noteq> Some node" "n_right n \<noteq> Some l"
    and p: "\<And>p. parent = Some p \<Longrightarrow> p \<noteq> node \<and> p \<noteq> l \<and> t_heap t p \<noteq> None"
  shows "\<exists>t'. RotateRight node parent t = Some t' \<and>
           rewired_right (t_heap t) (t_heap t') node l parent \<and>
           t_root t' = (case parent of None \<Rightarrow> Some l | Some _ \<Rightarrow> t_root t) \<and>
           t_count t' = t_count t \<and> t_traversal_method t' = t_traversal_method t \<and>
           height_cached (t_heap t') node \<and> height_cached (t_heap t') l"
proof -
  let ?h = "t_heap t"
  let ?hn = "if c0 > b0 then c0 + 1 else b0 + 1"
  let ?hl = "if ?hn > a0 then ?hn + 1 else a0 + 1"
  let ?n1 = "n\<lparr>n_left := n_right ln\<rparr>"
  let ?l1 = "ln\<lparr>n_right := Some node\<rparr>"
  let ?n2 = "n\<lparr>n_left := n_right ln, n_height := ?hn\<rparr>"
  let ?l2 = "ln\<lparr>n_right := Some node, n_height := ?hl\<rparr>"
  define h1 where "h1 = ?h(node \<mapsto> ?n1)"
  define h2 where "h2 = h1(l \<mapsto> ?l1)"
  define h3 where "h3 = h2(node \<mapsto> ?n2)"
  define h4 where "h4 = h3(l \<mapsto> ?l2)"
  have s1: "SetLeft ?h node (n_right ln) = Some h1"
    using n by (simp add: SetLeft_Some h1_def)
  have s2: "SetRight h1 l (Some node) = Some h2"
    using n by (simp add: SetRight_Some h1_def h2_def)
  have c2l: "child_height h2 (n_right ln) = Some b0"
    using ch na n by (simp add: child_height_upd_other h1_def h2_def)
  have c2r: "child_height h2 (n_right n) = Some c0"
    using ch na n by (simp add: child_height_upd_other h1_def h2_def)
  have "h2 node = Some ?n1" using n by (simp add: h1_def h2_def)
  from CalculateHeight_Some [of h2 node ?n1 b0 c0] this c2l c2r
  have s3: "CalculateHeight h2 node = Some h3"
    by (simp add: h3_def)
  have c3l: "child_height h3 (n_left ln) = Some a0"
    using ch na n by (simp add: child_height_upd_other h1_def h2_def h3_def)
  have c3r: "child_height h3 (Some node) = Some ?hn"
    by (simp add: child_height_upd_same h3_def)
  have "h3 l = Some ?l1" using n by (simp add: h1_def h2_def h3_def)
  from CalculateHeight_Some [of h3 l ?l1 a0 ?hn] this c3l c3r
  have s4: "CalculateHeight h3 l = Some h4"
    by (simp add: h4_def)
  have h4: "h4 node = Some ?n2" "h4 l = Some ?l2" "\<And>a. a \<noteq> node \<Longrightarrow> a \<noteq> l \<Longrightarrow> h4 a = ?h a"
    using n by (simp_all add: h1_def h2_def h3_def h4_def)
  have hc4: "child_height h4 (n_right ln) = Some b0" "child_height h4 (n_right n) = Some c0"
    "child_height h4 (n_left ln) = Some a0" "child_height h4 (Some node) = Some ?hn"
    using ch na n
    by (simp_all add: child_height_upd_other child_height_upd_same h1_def h2_def h3_def h4_def)
  have rr: "RotateRight node parent t =
      (case parent of
         None \<Rightarrow> Some (t\<lparr>t_heap := h4, t_root := Some l\<rparr>)
       | Some p \<Rightarrow>
           do { ln' \<leftarrow> h4 l;
                pn \<leftarrow> h4 p;
                h5 \<leftarrow> (if n_key ln' < n_key pn then SetLeft h4 p (Some l)
                       else SetRight h4 p (Some l));
                Some (t\<lparr>t_heap := h5\<rparr>) })"
    unfolding RotateRight_def by (simp only: n s1 s2 s3 s4 Option.bind.simps)
  show ?thesis
  proof (cases parent)
    case None
    let ?t' = "t\<lparr>t_heap := h4, t_root := Some l\<rparr>"
    from rr None have "RotateRight node parent t = Some ?t'" by simp
    moreover have "rewired_right ?h (t_heap ?t') node l parent"
      using n None h4 by (auto simp: rewired_right_def)
    moreover have "height_cached (t_heap ?t') node" "height_cached (t_heap ?t') l"
      using h4 hc4 by (simp_all add: height_cached_def)
    ultimately show ?thesis using None by simp
  next
    case (Some p)
    with p obtain pn where pn: "p \<noteq> node" "p \<noteq> l" "?h p = Some pn" by auto
    let ?pn' = "if n_key ln < n_key pn then pn\<lparr>n_left := Some l\<rparr> else pn\<lparr>n_right := Some l\<rparr>"
    define h5 where "h5 = h4(p \<mapsto> ?pn')"
    let ?t' = "t\<lparr>t_heap := h5\<rparr>"
    from pn h4 have p4: "h4 p = Some pn" by simp
    from rr Some h4(2) p4 have "RotateRight node parent t = Some ?t'"
      by (simp add: SetLeft_Some SetRight_Some h5_def)
    moreover have h5: "h5 node = Some ?n2" "h5 l = Some ?l2" "h5 p = Some ?pn'"
      "\<And>a. a \<noteq> node \<Longrightarrow> a \<noteq> l \<Longrightarrow> a \<noteq> p \<Longrightarrow> h5 a = ?h a"
      using h4 pn by (simp_all add: h5_def)
    then have "rewired_right ?h (t_heap ?t') node l parent"
      using n Some pn by (auto simp: rewired_right_def)
    moreover have "n_height ?pn' = n_height pn" by simp
    with p4 have "\<And>c. child_height h5 c = child_height h4 c"
      unfolding h5_def by (rule child_height_upd_keep)
    with h5 hc4 have "height_cached (t_heap ?t') node" "height_cached (t_heap ?t') l"
      by (simp_all add: height_cached_def)
    ultimately show ?thesis using Some by simp
  qed
qed

lemma rep_subtree:
  "rep h q T \<Longrightarrow> ordered T \<Longrightarrow> a \<in> addrs T
     \<Longrightarrow> \<exists>S. rep h (Some a) S \<and> ordered S \<and> addrs S \<subseteq> addrs T"
proof (induction T arbitrary: q)
  case Leaf
  then show ?case by simp
next
  case (Node l x r)
  from Node.prems(1) obtain a' k v n where n: "x = (a', k, v)" "q = Some a'" "h a' = Some n"
    "rep h (n_left n) l" "rep h (n_right n) r"
    by (rule rep_NodeE)
  from Node.prems(2) n(1) have o: "ordered l" "ordered r" by (simp_all add: ordered_Node)
  from Node.prems(3) n(1) consider "a = a'" | "a \<in> addrs l" | "a \<in> addrs r" by auto
  then show ?case
  proof cases
    case 1
    with Node.prems n show ?thesis by blast
  next
    case 2
    from Node.IH(1) [OF n(4) o(1) this] n(1) show ?thesis by auto
  next
    case 3
    from Node.IH(2) [OF n(5) o(2) this] n(1) show ?thesis by auto
  qed
qed

lemma child_height_rep: "rep h c T \<Longrightarrow> \<exists>x. child_height h c = Some x"
  by (cases T) (auto simp: child_height_def elim!: rep_NodeE)

lemma rep_root_in: "rep h (Some a) T \<Longrightarrow> a \<in> addrs T"
  by (cases T) (auto elim!: rep_NodeE)

lemma parent_in_root:
  "parent_in None T a = Some None \<Longrightarrow> \<exists>l k v r. T = Node l (a, k, v) r"
proof (cases T)
  case Leaf
  assume "parent_in None T a = Some None"
  with Leaf show ?thesis by simp
next
  case (Node l x r)
  assume p: "parent_in None T a = Some None"
  obtain b k v where x: "x = (b, k, v)" by (cases x)
  show ?thesis
  proof (cases "b = a")
    case True
    with Node x show ?thesis by simp
  next
    case False
    from parent_in_below [of None l b k v r a None] p Node x False show ?thesis by simp
  qed
qed

lemma parent_in_distinct:
  "rep h q T \<Longrightarrow> ordered T \<Longrightarrow> parent_in up T node = Some (Some p) \<Longrightarrow> q \<noteq> Some node
     \<Longrightarrow> h node = Some n \<Longrightarrow> n_left n = Some c \<or> n_right n = Some c
     \<Longrightarrow> p \<in> addrs T \<and> p \<noteq> node \<and> p \<noteq> c"
proof (induction T arbitrary: q up)
  case Leaf
  then show ?case by simp
next
  case (Node L x R)
  from Node.prems(1) obtain b k v bn where bn: "x = (b, k, v)" "q = Some b" "h b = Some bn"
    "n_key bn = k" "n_value bn = v" "rep h (n_left bn) L" "rep h (n_right bn) R"
    by (rule rep_NodeE)
  from Node.prems(4) bn have ne: "b \<noteq> node" by simp
  from Node.prems(2) bn have o: "ordered L" "ordered R" by (simp_all add: ordered_Node)
  from rep_ordered_disjoint [of h q L b k v R] Node.prems(1,2) bn
  have d: "b \<notin> addrs L" "b \<notin> addrs R" "addrs L \<inter> addrs R = {}" by auto
  have step: "p \<in> addrs (Node L x R) \<and> p \<noteq> node \<and> p \<noteq> c"
    if pin: "parent_in (Some b) S node = Some (Some p)" and rS: "rep h s S" and oS: "ordered S"
      and sub: "addrs S \<subseteq> addrs L \<union> addrs R" and bS: "b \<notin> addrs S"
      and IH: "s \<noteq> Some node \<Longrightarrow> p \<in> addrs S \<and> p \<noteq> node \<and> p \<noteq> c"
    for S s
  proof -
    from pin have inS: "node \<in> addrs S" using parent_in_None [of "Some b" S node] by auto
    from Node.prems(6) rep_left_child_in [OF rS inS Node.prems(5)]
      rep_right_child_in [OF rS inS Node.prems(5)]
    have cS: "c \<in> addrs S" by auto
    show ?thesis
    proof (cases "s = Some node")
      case True
      with rS obtain Sl k' v' Sr where "S = Node Sl (node, k', v') Sr"
        by (cases S) (auto elim!: rep_NodeE)
      with pin have "p = b" by simp
      with bS inS cS bn show ?thesis by auto
    next
      case False
      from IH [OF False] sub bn show ?thesis by auto
    qed
  qed
  show ?case
  proof (cases "parent_in (Some b) L node")
    case (Some pp)
    with Node.prems(3) bn ne have pL: "parent_in (Some b) L node = Some (Some p)" by simp
    have "addrs L \<subseteq> addrs L \<union> addrs R" by simp
    from step [OF pL bn(6) o(1) this d(1) Node.IH(1) [OF bn(6) o(1) pL _ Node.prems(5,6)]]
    show ?thesis by blast
  next
    case None
    with Node.prems(3) bn ne have pR: "parent_in (Some b) R node = Some (Some p)" by simp
    have "addrs R \<subseteq> addrs L \<union> addrs R" by simp
    from step [OF pR bn(7) o(2) this d(2) Node.IH(2) [OF bn(7) o(2) pR _ Node.prems(5,6)]]
    show ?thesis by blast
  qed
qed

lemma inorder_rotate_right_at: "inorder (rotate_right_at a T) = inorder T"
proof (induction T)
  case Leaf
  then show ?case by simp
next
  case (Node l x r)
  then show ?case by (cases l) auto
qed

lemma RotateRight_rep:
  assumes r: "rep (t_heap t) (t_root t) T" and o: "ordered T"
    and pin: "parent_in None T node = Some parent"
    and n: "t_heap t node = Some n" "n_left n = Some l"
  shows "\<exists>t'. RotateRight node parent t = Some t' \<and>
           rewired_right (t_heap t) (t_heap t') node l parent \<and>
           height_cached (t_heap t') node \<and> height_cached (t_heap t') l \<and>
           t_root t' = (case parent of None \<Rightarrow> Some l | Some p \<Rightarrow> t_root t) \<and>
           t_count t' = t_count t \<and>
           rep (t_heap t') (t_root t') (rotate_right_at node T)"
proof -
  let ?h = "t_heap t"
  from pin have inT: "node \<in> addrs T" using parent_in_None [of None T node] by auto
  from rep_subtree [OF r o inT] obtain S where S: "rep ?h (Some node) S" "ordered S"
    "addrs S \<subseteq> addrs T"
    by blast
  from S(1) n obtain L x C where SS: "S = Node L x C" "fst x = node" "rep ?h (Some l) L"
    "rep ?h (n_right n) C"
    by (cases S) (auto elim!: rep_NodeE)
  from SS(3) obtain A y B ln where L: "L = Node A y B" "fst y = l" "?h l = Some ln"
    "rep ?h (n_left ln) A" "rep ?h (n_right ln) B"
    by (cases L) (auto elim!: rep_NodeE)
  obtain k v where x: "x = (node, k, v)" using SS(2) by (cases x) auto
  obtain k' v' where y: "y = (l, k', v')" using L(2) by (cases y) auto
  from rep_ordered_disjoint [of ?h "Some node" L node k v C] S SS x
  have d1: "node \<notin> addrs L" "node \<notin> addrs C" "addrs L \<inter> addrs C = {}" by auto
  from S(2) SS x have oL: "ordered L" by (simp add: ordered_Node)
  from rep_ordered_disjoint [of ?h "Some l" A l k' v' B] SS(3) oL L y
  have d2: "l \<notin> addrs A" "l \<notin> addrs B" by auto
  from d1 L y have d3: "node \<noteq> l" "node \<notin> addrs A" "node \<notin> addrs B" "l \<notin> addrs C" by auto
  from child_height_rep [OF L(4)] child_height_rep [OF L(5)] child_height_rep [OF SS(4)]
  obtain a0 b0 c0 where ch: "child_height ?h (n_left ln) = Some a0"
    "child_height ?h (n_right ln) = Some b0" "child_height ?h (n_right n) = Some c0"
    by blast
  have na: "n_left ln \<noteq> Some node" "n_left ln \<noteq> Some l" "n_right ln \<noteq> Some node"
      "n_right ln \<noteq> Some l" "n_right n \<noteq> Some node" "n_right n \<noteq> Some l"
    using L(4,5) SS(4) d1 d2 d3 by (auto dest: rep_root_in)
  have pp: "p \<in> addrs T \<and> p \<noteq> node \<and> p \<noteq> l \<and> t_root t \<noteq> Some node" if "parent = Some p" for p
  proof -
    have "t_root t \<noteq> Some node"
    proof
      assume "t_root t = Some node"
      with r obtain l' k' v' r' where "T = Node l' (node, k', v') r'"
        by (cases T) (auto elim!: rep_NodeE)
      with pin that show False by simp
    qed
    with parent_in_distinct [OF r o _ _ n(1), of None p l] pin that n(2) show ?thesis by simp
  qed
  then have p: "\<And>p. parent = Some p \<Longrightarrow> p \<noteq> node \<and> p \<noteq> l \<and> ?h p \<noteq> None"
    using rep_allocated [OF r] by blast
  from RotateRight_rewired [OF n(1,2) L(3) d3(1) ch na p] obtain t' where
    t': "RotateRight node parent t = Some t'"
      "rewired_right ?h (t_heap t') node l parent"
      "t_root t' = (case parent of None \<Rightarrow> Some l | Some _ \<Rightarrow> t_root t)"
      "t_count t' = t_count t" "height_cached (t_heap t') node" "height_cached (t_heap t') l"
    by blast
  have "rep (t_heap t') (t_root t') (rotate_right_at node T)"
  proof (cases parent)
    case None
    with pin obtain l' k' v' r' where T: "T = Node l' (node, k', v') r'"
      using parent_in_root by blast
    with r have "rep ?h (Some node) T" by (auto split: option.splits)
    from rep_rotate_right_local [OF this o t'(2)] None t'(3) show ?thesis by simp
  next
    case (Some p)
    with pp have "t_root t \<noteq> Some node" by simp
    from rep_rotate_right_inside [OF r o _ _ this, of "t_heap t'" l p None] t'(2,3) pin Some
    show ?thesis by simp
  qed
  with t' show ?thesis by simp
qed

lemma rotate_left_at_fresh: "a \<notin> addrs T \<Longrightarrow> rotate_left_at a T = T"
proof (induction T)
  case Leaf
  then show ?case by simp
next
  case (Node l x r)
  then show ?case by (cases x) auto
qed

lemma inorder_rotate_left_at: "inorder (rotate_left_at a T) = inorder T"
proof (induction T)
  case Leaf
  then show ?case by simp
next
  case (Node l x r)
  then show ?case by (cases r) auto
qed

lemma rewired_left_frame:
  assumes "rewired_left h H node rc parent" "rep h q T" "node \<notin> addrs T" "rc \<notin> addrs T"
    "\<And>p. parent = Some p \<Longrightarrow> p \<notin> addrs T"
  shows "rep H q T"
proof (rule rep_frame [OF assms(2)])
  fix a assume a: "a \<in> addrs T"
  with assms(3,4) have "a \<noteq> node" "a \<noteq> rc" by auto
  moreover from a assms(5) have "Some a \<noteq> parent" by auto
  ultimately show "H a = h a" using assms(1) by (auto simp: rewired_left_def)
qed

lemma rep_rotate_left_local:
  assumes r: "rep h (Some node) S" and o: "ordered S"
    and w: "rewired_left h H node rc parent"
    and p: "\<And>p. parent = Some p \<Longrightarrow> p \<notin> addrs S"
  shows "rep H (Some rc) (rotate_left_at node S)"
proof -
  from w obtain n rn hn hr where n: "h node = Some n" "h rc = Some rn" "n_right n = Some rc"
    and H: "H node = Some (n\<lparr>n_right := n_left rn, n_height := hn\<rparr>)"
      "H rc = Some (rn\<lparr>n_left := Some node, n_height := hr\<rparr>)"
    by (auto simp: rewired_left_def)
  from r n obtain A x R where S: "S = Node A x R" "fst x = node" "rep h (Some rc) R"
    "rep h (n_left n) A" "n_key n = fst (snd x)" "n_value n = snd (snd x)"
    by (cases S) (auto elim!: rep_NodeE)
  from S(3) n obtain B y C where R: "R = Node B y C" "fst y = rc" "rep h (n_left rn) B"
    "rep h (n_right rn) C" "n_key rn = fst (snd y)" "n_value rn = snd (snd y)"
    by (cases R) (auto elim!: rep_NodeE)
  obtain k v where x: "x = (node, k, v)" using S(2) by (cases x) auto
  obtain k' v' where y: "y = (rc, k', v')" using R(2) by (cases y) auto
  from rep_ordered_disjoint [of h "Some node" A node k v R] r o S x
  have d1: "node \<notin> addrs A" "node \<notin> addrs R" "addrs A \<inter> addrs R = {}" by auto
  from o S x have oR: "ordered R" by (simp add: ordered_Node)
  from rep_ordered_disjoint [of h "Some rc" B rc k' v' C] S(3) oR R y
  have d2: "rc \<notin> addrs B" "rc \<notin> addrs C" "addrs B \<inter> addrs C = {}" by auto
  from d1 R y have d3: "node \<noteq> rc" "node \<notin> addrs B" "node \<notin> addrs C" "rc \<notin> addrs A" by auto
  from p S R x y have d4: "\<And>p. parent = Some p \<Longrightarrow> p \<notin> addrs A"
    "\<And>p. parent = Some p \<Longrightarrow> p \<notin> addrs B" "\<And>p. parent = Some p \<Longrightarrow> p \<notin> addrs C"
    by auto
  have fA: "rep H (n_left n) A"
    using w S(4) d1(1) d3(4) d4(1) by (rule rewired_left_frame)
  have fB: "rep H (n_left rn) B"
    using w R(3) d3(2) d2(1) d4(2) by (rule rewired_left_frame)
  have fC: "rep H (n_right rn) C"
    using w R(4) d3(3) d2(2) d4(3) by (rule rewired_left_frame)
  from fA fB fC H S R x y show ?thesis by simp
qed

lemma rep_rotate_left_inside:
  "rep h q T \<Longrightarrow> ordered T \<Longrightarrow> rewired_left h H node l (Some p)
     \<Longrightarrow> parent_in up T node = Some (Some p) \<Longrightarrow> q \<noteq> Some node
     \<Longrightarrow> rep H q (rotate_left_at node T)"
proof (induction T arbitrary: q up)
  case Leaf
  then show ?case by simp
next
  case (Node L x R)
  from Node.prems(1) obtain b k v bn where bn: "x = (b, k, v)" "q = Some b" "h b = Some bn"
    "n_key bn = k" "n_value bn = v" "rep h (n_left bn) L" "rep h (n_right bn) R"
    by (rule rep_NodeE)
  from Node.prems(5) bn have ne: "b \<noteq> node" by simp
  from Node.prems(2) bn have o: "ordered L" "ordered R"
    "\<forall>y \<in> set (keys L). y < k" "\<forall>y \<in> set (keys R). k < y"
    by (simp_all add: ordered_Node)
  from rep_ordered_disjoint [of h q L b k v R] Node.prems(1,2) bn
  have d: "b \<notin> addrs L" "b \<notin> addrs R" "addrs L \<inter> addrs R = {}" by auto
  from Node.prems(3) obtain n ln pn where n: "h node = Some n" "h l = Some ln"
    "n_right n = Some l" "h p = Some pn"
    and H: "H p = Some (if n_key ln < n_key pn then pn\<lparr>n_left := Some l\<rparr>
                   else pn\<lparr>n_right := Some l\<rparr>)"
      "\<forall>a. a \<noteq> node \<and> a \<noteq> l \<and> a \<noteq> p \<longrightarrow> H a = h a"
    by (auto simp: rewired_left_def)
  show ?case
  proof (cases "parent_in (Some b) L node")
    case (Some pp)
    with Node.prems(4) bn ne have pin: "parent_in (Some b) L node = Some (Some p)" by simp
    then have inL: "node \<in> addrs L" using parent_in_None [of "Some b" L node] by auto
    with d have notR: "node \<notin> addrs R" by auto
    from rep_right_child_in [OF bn(6) inL n(1,3)] have lin: "l \<in> addrs L" .
    with d have lR: "l \<notin> addrs R" by auto
    from rep_addr_key [OF bn(6) lin] n have lk: "n_key ln \<in> set (keys L)" by auto
    from inL obtain Ll y Lr where L: "L = Node Ll y Lr" by (cases L) auto
    obtain c k' v' where y: "y = (c, k', v')" by (cases y)
    from bn(6) L y have c: "n_left bn = Some c" by auto
    show ?thesis
    proof (cases "c = node")
      case True
      with pin L y have pb: "p = b" by simp
      from bn(6) c True have rl: "rep h (Some node) L" by simp
      from rep_rotate_left_local [OF rl o(1) Node.prems(3)] d pb
      have rot: "rep H (Some l) (rotate_left_at node L)" by simp
      from lk o(3) pb bn n have lt: "n_key ln < n_key pn" by auto
      have fR: "rep H (n_right bn) R"
        using Node.prems(3) bn(7) notR lR d pb by (intro rewired_left_frame [of h H node l "Some p"]) auto
      from lt H(1) pb bn n have Hb: "H b = Some (bn\<lparr>n_left := Some l\<rparr>)" by simp
      from rot fR Hb bn ne rotate_left_at_fresh [OF notR] show ?thesis by simp
    next
      case False
      with c have qn: "n_left bn \<noteq> Some node" by simp
      from Node.IH(1) [OF bn(6) o(1) Node.prems(3) pin qn]
      have rot: "rep H (n_left bn) (rotate_left_at node L)" .
      from parent_in_below [of "Some b" Ll c k' v' Lr node "Some p"] pin L y False
      have "p \<in> addrs L" by auto
      with lin d have notb: "b \<noteq> p" "b \<noteq> l" "p \<notin> addrs R" by auto
      have fR: "rep H (n_right bn) R"
        using Node.prems(3) bn(7) notR lR notb by (intro rewired_left_frame [of h H node l "Some p"]) auto
      from H(2) ne notb bn have Hb: "H b = Some bn" by simp
      from rot fR Hb bn ne rotate_left_at_fresh [OF notR] show ?thesis by simp
    qed
  next
    case None
    then have notL: "node \<notin> addrs L" by (simp add: parent_in_None)
    from None Node.prems(4) bn ne have pin: "parent_in (Some b) R node = Some (Some p)" by simp
    then have inR: "node \<in> addrs R" using parent_in_None [of "Some b" R node] by auto
    from rep_right_child_in [OF bn(7) inR n(1,3)] have lin: "l \<in> addrs R" .
    with d have lL: "l \<notin> addrs L" by auto
    from rep_addr_key [OF bn(7) lin] n have lk: "n_key ln \<in> set (keys R)" by auto
    from inR obtain Rl y Rr where R: "R = Node Rl y Rr" by (cases R) auto
    obtain c k' v' where y: "y = (c, k', v')" by (cases y)
    from bn(7) R y have c: "n_right bn = Some c" by auto
    show ?thesis
    proof (cases "c = node")
      case True
      with pin R y have pb: "p = b" by simp
      from bn(7) c True have rl: "rep h (Some node) R" by simp
      from rep_rotate_left_local [OF rl o(2) Node.prems(3)] d pb
      have rot: "rep H (Some l) (rotate_left_at node R)" by simp
      from lk o(4) pb bn n have lt: "\<not> n_key ln < n_key pn" by auto
      have fL: "rep H (n_left bn) L"
        using Node.prems(3) bn(6) notL lL d pb by (intro rewired_left_frame [of h H node l "Some p"]) auto
      from lt H(1) pb bn n have Hb: "H b = Some (bn\<lparr>n_right := Some l\<rparr>)" by simp
      from rot fL Hb bn ne rotate_left_at_fresh [OF notL] show ?thesis by simp
    next
      case False
      with c have qn: "n_right bn \<noteq> Some node" by simp
      from Node.IH(2) [OF bn(7) o(2) Node.prems(3) pin qn]
      have rot: "rep H (n_right bn) (rotate_left_at node R)" .
      from parent_in_below [of "Some b" Rl c k' v' Rr node "Some p"] pin R y False
      have "p \<in> addrs R" by auto
      with lin d have notb: "b \<noteq> p" "b \<noteq> l" "p \<notin> addrs L" by auto
      have fL: "rep H (n_left bn) L"
        using Node.prems(3) bn(6) notL lL notb by (intro rewired_left_frame [of h H node l "Some p"]) auto
      from H(2) ne notb bn have Hb: "H b = Some bn" by simp
      from rot fL Hb bn ne rotate_left_at_fresh [OF notL] show ?thesis by simp
    qed
  qed
qed

lemma RotateLeft_rewired:
  assumes n: "t_heap t node = Some n" "n_right n = Some rc" "t_heap t rc = Some rn" "node \<noteq> rc"
    and ch: "child_height (t_heap t) (n_left n) = Some a0"
      "child_height (t_heap t) (n_left rn) = Some b0"
      "child_height (t_heap t) (n_right rn) = Some c0"
    and na: "n_left n \<noteq> Some node" "n_left n \<noteq> Some rc" "n_left rn \<noteq> Some node"
      "n_left rn \<noteq> Some rc" "n_right rn \<noteq> Some node" "n_right rn \<noteq> Some rc"
    and p: "\<And>p. parent = Some p \<Longrightarrow> p \<noteq> node \<and> p \<noteq> rc \<and> t_heap t p \<noteq> None"
  shows "\<exists>t'. RotateLeft node parent t = Some t' \<and>
           rewired_left (t_heap t) (t_heap t') node rc parent \<and>
           t_root t' = (case parent of None \<Rightarrow> Some rc | Some _ \<Rightarrow> t_root t) \<and>
           t_count t' = t_count t \<and> t_traversal_method t' = t_traversal_method t \<and>
           height_cached (t_heap t') node \<and> height_cached (t_heap t') rc"
proof -
  let ?h = "t_heap t"
  let ?hn = "if b0 > a0 then b0 + 1 else a0 + 1"
  let ?hr = "if c0 > ?hn then c0 + 1 else ?hn + 1"
  let ?n1 = "n\<lparr>n_right := n_left rn\<rparr>"
  let ?r1 = "rn\<lparr>n_left := Some node\<rparr>"
  let ?n2 = "n\<lparr>n_right := n_left rn, n_height := ?hn\<rparr>"
  let ?r2 = "rn\<lparr>n_left := Some node, n_height := ?hr\<rparr>"
  define h1 where "h1 = ?h(node \<mapsto> ?n1)"
  define h2 where "h2 = h1(rc \<mapsto> ?r1)"
  define h3 where "h3 = h2(node \<mapsto> ?n2)"
  define h4 where "h4 = h3(rc \<mapsto> ?r2)"
  have s1: "SetRight ?h node (n_left rn) = Some h1"
    using n by (simp add: SetRight_Some h1_def)
  have s2: "SetLeft h1 rc (Some node) = Some h2"
    using n by (simp add: SetLeft_Some h1_def h2_def)
  have c2l: "child_height h2 (n_left n) = Some a0"
    using ch na n by (simp add: child_height_upd_other h1_def h2_def)
  have c2r: "child_height h2 (n_left rn) = Some b0"
    using ch na n by (simp add: child_height_upd_other h1_def h2_def)
  have "h2 node = Some ?n1" using n by (simp add: h1_def h2_def)
  from CalculateHeight_Some [of h2 node ?n1 a0 b0] this c2l c2r
  have s3: "CalculateHeight h2 node = Some h3"
    by (simp add: h3_def)
  have c3r: "child_height h3 (n_right rn) = Some c0"
    using ch na n by (simp add: child_height_upd_other h1_def h2_def h3_def)
  have c3l: "child_height h3 (Some node) = Some ?hn"
    by (simp add: child_height_upd_same h3_def)
  have "h3 rc = Some ?r1" using n by (simp add: h1_def h2_def h3_def)
  from CalculateHeight_Some [of h3 rc ?r1 ?hn c0] this c3l c3r
  have s4: "CalculateHeight h3 rc = Some h4"
    by (simp add: h4_def)
  have h4: "h4 node = Some ?n2" "h4 rc = Some ?r2" "\<And>a. a \<noteq> node \<Longrightarrow> a \<noteq> rc \<Longrightarrow> h4 a = ?h a"
    using n by (simp_all add: h1_def h2_def h3_def h4_def)
  have hc4: "child_height h4 (n_left n) = Some a0" "child_height h4 (n_left rn) = Some b0"
    "child_height h4 (n_right rn) = Some c0" "child_height h4 (Some node) = Some ?hn"
    using ch na n
    by (simp_all add: child_height_upd_other child_height_upd_same h1_def h2_def h3_def h4_def)
  have rr: "RotateLeft node parent t =
      (case parent of
         None \<Rightarrow> Some (t\<lparr>t_heap := h4, t_root := Some rc\<rparr>)
       | Some p \<Rightarrow>
           do { rn' \<leftarrow> h4 rc;
                pn \<leftarrow> h4 p;
                h5 \<leftarrow> (if n_key rn' < n_key pn then SetLeft h4 p (Some rc)
                       else SetRight h4 p (Some rc));
                Some (t\<lparr>t_heap := h5\<rparr>) })"
    unfolding RotateLeft_def by (simp only: n s1 s2 s3 s4 Option.bind.simps)
  show ?thesis
  proof (cases parent)
    case None
    let ?t' = "t\<lparr>t_heap := h4, t_root := Some rc\<rparr>"
    from rr None have "RotateLeft node parent t = Some ?t'" by simp
    moreover have "rewired_left ?h (t_heap ?t') node rc parent"
      using n None h4 by (auto simp: rewired_left_def)
    moreover have "height_cached (t_heap ?t') node" "height_cached (t_heap ?t') rc"
      using h4 hc4 by (simp_all add: height_cached_def)
    ultimately show ?thesis using None by simp
  next
    case (Some p)
    with p obtain pn where pn: "p \<noteq> node" "p \<noteq> rc" "?h p = Some pn" by auto
    let ?pn' = "if n_key rn < n_key pn then pn\<lparr>n_left := Some rc\<rparr> else pn\<lparr>n_right := Some rc\<rparr>"
    define h5 where "h5 = h4(p \<mapsto> ?pn')"
    let ?t' = "t\<lparr>t_heap := h5\<rparr>"
    from pn h4 have p4: "h4 p = Some pn" by simp
    from rr Some h4(2) p4 have "RotateLeft node parent t = Some ?t'"
      by (simp add: SetLeft_Some SetRight_Some h5_def)
    moreover have h5: "h5 node = Some ?n2" "h5 rc = Some ?r2" "h5 p = Some ?pn'"
      "\<And>a. a \<noteq> node \<Longrightarrow> a \<noteq> rc \<Longrightarrow> a \<noteq> p \<Longrightarrow> h5 a = ?h a"
      using h4 pn by (simp_all add: h5_def)
    then have "rewired_left ?h (t_heap ?t') node rc parent"
      using n Some pn by (auto simp: rewired_left_def)
    moreover have "n_height ?pn' = n_height pn" by simp
    with p4 have "\<And>c. child_height h5 c = child_height h4 c"
      unfolding h5_def by (rule child_height_upd_keep)
    with h5 hc4 have "height_cached (t_heap ?t') node" "height_cached (t_heap ?t') rc"
      by (simp_all add: height_cached_def)
    ultimately show ?thesis using Some by simp
  qed
qed

lemma RotateLeft_rep:
  assumes r: "rep (t_heap t) (t_root t) T" and o: "ordered T"
    and pin: "parent_in None T node = Some parent"
    and n: "t_heap t node = Some n" "n_right n = Some rc"
  shows "\<exists>t'. RotateLeft node parent t = Some t' \<and>
           rewired_left (t_heap t) (t_heap t') node rc parent \<and>
           height_cached (t_heap t') node \<and> height_cached (t_heap t') rc \<and>
           t_root t' = (case parent of None \<Rightarrow> Some rc | Some p \<Rightarrow> t_root t) \<and>
           t_count t' = t_count t \<and>
           rep (t_heap t') (t_root t') (rotate_left_at node T)"
proof -
  let ?h = "t_heap t"
  from pin have inT: "node \<in> addrs T" using parent_in_None [of None T node] by auto
  from rep_subtree [OF r o inT] obtain S where S: "rep ?h (Some node) S" "ordered S"
    "addrs S \<subseteq> addrs T"
    by blast
  from S(1) n obtain A x R where SS: "S = Node A x R" "fst x = node" "rep ?h (Some rc) R"
    "rep ?h (n_left n) A"
    by (cases S) (auto elim!: rep_NodeE)
  from SS(3) obtain B y C rn where R: "R = Node B y C" "fst y = rc" "?h rc = Some rn"
    "rep ?h (n_left rn) B" "rep ?h (n_right rn) C"
    by (cases R) (auto elim!: rep_NodeE)
  obtain k v where x: "x = (node, k, v)" using SS(2) by (cases x) auto
  obtain k' v' where y: "y = (rc, k', v')" using R(2) by (cases y) auto
  from rep_ordered_disjoint [of ?h "Some node" A node k v R] S SS x
  have d1: "node \<notin> addrs A" "node \<notin> addrs R" "addrs A \<inter> addrs R = {}" by auto
  from S(2) SS x have oR: "ordered R" by (simp add: ordered_Node)
  from rep_ordered_disjoint [of ?h "Some rc" B rc k' v' C] SS(3) oR R y
  have d2: "rc \<notin> addrs B" "rc \<notin> addrs C" by auto
  from d1 R y have d3: "node \<noteq> rc" "node \<notin> addrs B" "node \<notin> addrs C" "rc \<notin> addrs A" by auto
  from child_height_rep [OF SS(4)] child_height_rep [OF R(4)] child_height_rep [OF R(5)]
  obtain a0 b0 c0 where ch: "child_height ?h (n_left n) = Some a0"
    "child_height ?h (n_left rn) = Some b0" "child_height ?h (n_right rn) = Some c0"
    by blast
  have na: "n_left n \<noteq> Some node" "n_left n \<noteq> Some rc" "n_left rn \<noteq> Some node"
      "n_left rn \<noteq> Some rc" "n_right rn \<noteq> Some node" "n_right rn \<noteq> Some rc"
    using R(4,5) SS(4) d1 d2 d3 by (auto dest: rep_root_in)
  have pp: "p \<in> addrs T \<and> p \<noteq> node \<and> p \<noteq> rc \<and> t_root t \<noteq> Some node" if "parent = Some p" for p
  proof -
    have "t_root t \<noteq> Some node"
    proof
      assume "t_root t = Some node"
      with r obtain l' k' v' r' where "T = Node l' (node, k', v') r'"
        by (cases T) (auto elim!: rep_NodeE)
      with pin that show False by simp
    qed
    with parent_in_distinct [OF r o _ _ n(1), of None p rc] pin that n(2) show ?thesis by simp
  qed
  then have p: "\<And>p. parent = Some p \<Longrightarrow> p \<noteq> node \<and> p \<noteq> rc \<and> ?h p \<noteq> None"
    using rep_allocated [OF r] by blast
  from RotateLeft_rewired [OF n(1,2) R(3) d3(1) ch na p] obtain t' where
    t': "RotateLeft node parent t = Some t'"
      "rewired_left ?h (t_heap t') node rc parent"
      "t_root t' = (case parent of None \<Rightarrow> Some rc | Some _ \<Rightarrow> t_root t)"
      "t_count t' = t_count t" "height_cached (t_heap t') node" "height_cached (t_heap t') rc"
    by blast
  have "rep (t_heap t') (t_root t') (rotate_left_at node T)"
  proof (cases parent)
    case None
    with pin obtain l' k' v' r' where T: "T = Node l' (node, k', v') r'"
      using parent_in_root by blast
    with r have "rep ?h (Some node) T" by (auto split: option.splits)
    from rep_rotate_left_local [OF this o t'(2)] None t'(3) show ?thesis by simp
  next
    case (Some p)
    with pp have "t_root t \<noteq> Some node" by simp
    from rep_rotate_left_inside [OF r o _ _ this, of "t_heap t'" rc p None] t'(2,3) pin Some
    show ?thesis by simp
  qed
  with t' show ?thesis by simp
qed

lemma keys_rotate_right_at: "keys (rotate_right_at a T) = keys T"
  by (simp add: keys_def inorder_rotate_right_at)

lemma keys_rotate_left_at: "keys (rotate_left_at a T) = keys T"
  by (simp add: keys_def inorder_rotate_left_at)

text \<open>
  Claim C8. Let the store represent a search tree \<open>T\<close>, let \<open>node\<close> be a node of \<open>T\<close> with
  a left child \<open>c\<close>, and let \<open>parent\<close> be the pointer to its parent in \<open>T\<close> (null when \<open>node\<close>
  is the root). Then \<open>RotateRight(node, parent)\<close> returns; \<open>node\<close> has the old right subtree
  of \<open>c\<close> as its left child and \<open>c\<close> has \<open>node\<close> as its right child; the cached heights of
  both agree with those of their new children (the height of \<open>node\<close> is computed first, the
  height of \<open>c\<close> from it); the parent, or the root pointer of the tree when there is no
  parent, points to \<open>c\<close>; the store represents \<open>T\<close> rotated at \<open>node\<close>, which has the same
  in-order sequence of entries and keys as \<open>T\<close> and is a search tree. The same holds for
  \<open>RotateLeft\<close> with left and right exchanged.
\<close>

theorem rotations_keep_order:
  "(rep (t_heap t) (t_root t) T \<and> ordered T \<and> parent_in None T node = Some parent \<and>
    t_heap t node = Some n \<and> n_left n = Some c \<longrightarrow>
      (\<exists>t'. RotateRight node parent t = Some t' \<and>
            rewired_right (t_heap t) (t_heap t') node c parent \<and>
            height_cached (t_heap t') node \<and> height_cached (t_heap t') c \<and>
            t_root t' = (case parent of None \<Rightarrow> Some c | Some p \<Rightarrow> t_root t) \<and>
            rep (t_heap t') (t_root t') (rotate_right_at node T) \<and>
            inorder (rotate_right_at node T) = inorder T \<and>
            keys (rotate_right_at node T) = keys T \<and> ordered (rotate_right_at node T))) \<and>
   (rep (t_heap t) (t_root t) T \<and> ordered T \<and> parent_in None T node = Some parent \<and>
    t_heap t node = Some n \<and> n_right n = Some c \<longrightarrow>
      (\<exists>t'. RotateLeft node parent t = Some t' \<and>
            rewired_left (t_heap t) (t_heap t') node c parent \<and>
            height_cached (t_heap t') node \<and> height_cached (t_heap t') c \<and>
            t_root t' = (case parent of None \<Rightarrow> Some c | Some p \<Rightarrow> t_root t) \<and>
            rep (t_heap t') (t_root t') (rotate_left_at node T) \<and>
            inorder (rotate_left_at node T) = inorder T \<and>
            keys (rotate_left_at node T) = keys T \<and> ordered (rotate_left_at node T)))"
proof (intro conjI impI; elim conjE)
  assume a: "rep (t_heap t) (t_root t) T" "ordered T" "parent_in None T node = Some parent"
    "t_heap t node = Some n" "n_left n = Some c"
  from RotateRight_rep [OF a] a(2)
  show "\<exists>t'. RotateRight node parent t = Some t' \<and>
            rewired_right (t_heap t) (t_heap t') node c parent \<and>
            height_cached (t_heap t') node \<and> height_cached (t_heap t') c \<and>
            t_root t' = (case parent of None \<Rightarrow> Some c | Some p \<Rightarrow> t_root t) \<and>
            rep (t_heap t') (t_root t') (rotate_right_at node T) \<and>
            inorder (rotate_right_at node T) = inorder T \<and>
            keys (rotate_right_at node T) = keys T \<and> ordered (rotate_right_at node T)"
    by (auto simp: inorder_rotate_right_at keys_rotate_right_at ordered_def)
next
  assume a: "rep (t_heap t) (t_root t) T" "ordered T" "parent_in None T node = Some parent"
    "t_heap t node = Some n" "n_right n = Some c"
  from RotateLeft_rep [OF a] a(2)
  show "\<exists>t'. RotateLeft node parent t = Some t' \<and>
            rewired_left (t_heap t) (t_heap t') node c parent \<and>
            height_cached (t_heap t') node \<and> height_cached (t_heap t') c \<and>
            t_root t' = (case parent of None \<Rightarrow> Some c | Some p \<Rightarrow> t_root t) \<and>
            rep (t_heap t') (t_root t') (rotate_left_at node T) \<and>
            inorder (rotate_left_at node T) = inorder T \<and>
            keys (rotate_left_at node T) = keys T \<and> ordered (rotate_left_at node T)"
    by (auto simp: inorder_rotate_left_at keys_rotate_left_at ordered_def)
qed

theorem rotations_keep_order_witness:
  "rep (t_heap tree8) (t_root tree8) shape8 \<and> ordered shape8 \<and>
   parent_in None shape8 2 = Some (Some 4) \<and> parent_in None shape8 6 = Some (Some 4) \<and>
   parent_in None shape8 4 = Some None \<and>
   (\<exists>t'. RotateRight 2 (Some 4) tree8 = Some t' \<and> t_root t' = Some 4 \<and>
         rep (t_heap t') (t_root t') (rotate_right_at 2 shape8) \<and>
         keys (rotate_right_at 2 shape8) = [1, 2, 3, 4, 5, 6, 7, 8]) \<and>
   (\<exists>t'. RotateLeft 6 (Some 4) tree8 = Some t' \<and> t_root t' = Some 4 \<and>
         rep (t_heap t') (t_root t') (rotate_left_at 6 shape8) \<and>
         keys (rotate_left_at 6 shape8) = [1, 2, 3, 4, 5, 6, 7, 8]) \<and>
   (\<exists>t'. RotateRight 4 None tree8 = Some t' \<and> t_root t' = Some 2 \<and>
         rep (t_heap t') (t_root t') (rotate_right_at 4 shape8) \<and>
         keys (rotate_right_at 4 shape8) = [1, 2, 3, 4, 5, 6, 7, 8])"
proof -
  have pre: "rep (t_heap tree8) (t_root tree8) shape8" "ordered shape8"
    "parent_in None shape8 2 = Some (Some 4)" "parent_in None shape8 6 = Some (Some 4)"
    "parent_in None shape8 4 = Some None"
    by (simp_all add: tree8_def shape8_def ordered_def)
  have k: "keys shape8 = [1, 2, 3, 4, 5, 6, 7, 8]" "t_root tree8 = Some 4"
    by (simp_all add: shape8_def tree8_def)
  have n2: "t_heap tree8 2 = Some \<lparr>n_key = 2, n_value = ''two'', n_left = Some 1,
      n_right = Some 3, n_height = 1\<rparr>"
    and n6: "t_heap tree8 6 = Some \<lparr>n_key = 6, n_value = ''six'', n_left = Some 5,
      n_right = Some 7, n_height = 2\<rparr>"
    and n4: "t_heap tree8 4 = Some \<lparr>n_key = 4, n_value = ''four'', n_left = Some 2,
      n_right = Some 6, n_height = 3\<rparr>"
    by (simp_all add: tree8_def)
  from rotations_keep_order [of tree8 shape8 2 "Some 4" _ 1] pre n2 k
  have "\<exists>t'. RotateRight 2 (Some 4) tree8 = Some t' \<and> t_root t' = Some 4 \<and>
         rep (t_heap t') (t_root t') (rotate_right_at 2 shape8) \<and>
         keys (rotate_right_at 2 shape8) = [1, 2, 3, 4, 5, 6, 7, 8]"
    by fastforce
  moreover from rotations_keep_order [of tree8 shape8 6 "Some 4" _ 7] pre n6 k
  have "\<exists>t'. RotateLeft 6 (Some 4) tree8 = Some t' \<and> t_root t' = Some 4 \<and>
         rep (t_heap t') (t_root t') (rotate_left_at 6 shape8) \<and>
         keys (rotate_left_at 6 shape8) = [1, 2, 3, 4, 5, 6, 7, 8]"
    by fastforce
  moreover from rotations_keep_order [of tree8 shape8 4 None _ 2] pre n4 k
  have "\<exists>t'. RotateRight 4 None tree8 = Some t' \<and> t_root t' = Some 2 \<and>
         rep (t_heap t') (t_root t') (rotate_right_at 4 shape8) \<and>
         keys (rotate_right_at 4 shape8) = [1, 2, 3, 4, 5, 6, 7, 8]"
    by fastforce
  ultimately show ?thesis using pre by blast
qed


section \<open>Removing a left child that has no right child\<close>





end
